theory Spec2Isabelle
  imports Main "HOL-Library.Word" "HOL-Library.Signed_Division"
begin

unbundle bit_operations_syntax

section \<open>Crazy Clock: the common infrastructure (base.c) and the lazy clock (lazy.c)\<close>

text \<open>
  The target is an ATtiny45 compiled with avr-gcc: \<open>unsigned char\<close> is 8 bits, \<open>int\<close> is
  16 bits, \<open>long\<close> and \<open>unsigned long\<close> are 32 bits, two's complement, and \<open>>>\<close> on a
  negative \<open>long\<close> is an arithmetic shift. Unsigned arithmetic wraps around, which is
  what the word types do.
\<close>

subsection \<open>Build-time configuration\<close>

text \<open>
  The preprocessor selects one oscillator profile (\<open>FOUR_MHZ_CLOCK\<close> or
  \<open>THIRTYTWO_KHZ_CLOCK\<close>) and optionally \<open>SW_TRIM\<close> and \<open>DEBUG\<close>. A configuration
  holds the three macros of the profile and the two switches.
\<close>

record config =
  CLOCK_CYCLES :: nat
  CLOCK_BASIC_CYCLE :: int
  CLOCK_NUM_LONG_CYCLES :: nat
  SW_TRIM :: bool
  DEBUG :: bool

definition FOUR_MHZ_CLOCK :: "bool \<Rightarrow> bool \<Rightarrow> config" where
  "FOUR_MHZ_CLOCK trim dbg =
     \<lparr>CLOCK_CYCLES = 64, CLOCK_BASIC_CYCLE = 48 - 1, CLOCK_NUM_LONG_CYCLES = 53,
      SW_TRIM = trim, DEBUG = dbg\<rparr>"

definition THIRTYTWO_KHZ_CLOCK :: "bool \<Rightarrow> bool \<Rightarrow> config" where
  "THIRTYTWO_KHZ_CLOCK trim dbg =
     \<lparr>CLOCK_CYCLES = 5, CLOCK_BASIC_CYCLE = 51 - 1, CLOCK_NUM_LONG_CYCLES = 1,
      SW_TRIM = trim, DEBUG = dbg\<rparr>"

definition SEED_UPDATE_INTERVAL :: "32 word" where
  "SEED_UPDATE_INTERVAL = 864000"

definition P0 :: "8 word" where "P0 = 0"
definition P1 :: "8 word" where "P1 = 1"
definition P_UNUSED :: "8 word" where "P_UNUSED = 2"

definition M :: "32 word" where
  "M = 0x7fffffff"

definition TICK_LENGTH :: nat where
  "TICK_LENGTH = 35"

text \<open>\<open>_BV(n)\<close> of avr-libc is \<open>1 << n\<close>.\<close>

definition BV :: "8 word \<Rightarrow> 8 word" where
  "BV n = push_bit (unat n) 1"

subsection \<open>Machine state\<close>

text \<open>
  The statics and globals of base.c, the one local of \<open>loop()\<close> in lazy.c that lives
  across iterations, the two I/O registers the program logic depends on, and the two
  EEPROM cells (a dword at \<open>EE_PRNG_SEED_LOC\<close>, a word at \<open>EE_TRIM_LOC\<close>). The
  peripheral set-up registers that \<open>main\<close> writes once (ADCSRA, ACSR, TCCR0A, TCCR0B,
  TIMSK, DDRB, TCNT0) are never read by the program and are left out.
\<close>

record state =
  seed :: "32 word"
  seed_update_timer :: "32 word"
  sleep_miss_counter :: "8 word"
  lastTick :: "8 word"
  cycle_pos :: "8 word"
  trim_pos :: "32 word"
  seedUpdateAfter :: "32 word"
  OCR0A :: "8 word"
  PORTB :: "8 word"
  eeprom_seed :: "32 word"
  eeprom_trim :: "16 word"

text \<open>
  What the program does to the outside world, in order: a write to PORTB (with the value
  written), a busy-wait of \<open>_delay_ms\<close>, a write of the seed to EEPROM, the atomic
  snapshot-and-decrement of \<open>sleep_miss_counter\<close> in \<open>doSleep\<close> (with the snapshot),
  and an entry into \<open>sleep_mode()\<close>.
\<close>

datatype event =
    PORTB_out "8 word"
  | Delay_ms nat
  | Eeprom_write_dword "32 word"
  | Eat_tick "8 word"
  | Sleep_mode

text \<open>
  A main-context function either returns or, in a DEBUG build, reaches \<open>while(1);\<close>
  and never returns.
\<close>

datatype outcome = Returns state | Locks_up state

type_synonym run = "event list \<times> outcome"

definition and_then :: "run \<Rightarrow> (state \<Rightarrow> run) \<Rightarrow> run" where
  "and_then r f =
     (case r of
        (es, Returns s) \<Rightarrow> (case f s of (es', r') \<Rightarrow> (es @ es', r'))
      | (es, Locks_up s) \<Rightarrow> (es, Locks_up s))"

text \<open>\<open>for (int i = 0; i < n; i++) body;\<close> with a body that does not read \<open>i\<close>.\<close>

primrec repeat :: "nat \<Rightarrow> (state \<Rightarrow> run) \<Rightarrow> state \<Rightarrow> run" where
  "repeat 0 body s = ([], Returns s)"
| "repeat (Suc n) body s = and_then (body s) (repeat n body)"

subsection \<open>The generator: \<open>q_random\<close>\<close>

text \<open>
  \<open>seed << 15\<close> on a \<open>long\<close> keeps the low 32 bits of the product (avr-gcc), and the
  mask \<open>& M\<close> then keeps the low 31 of them. The function returns the new seed
  converted to \<open>unsigned long\<close>, which is the same 32 bits.
\<close>

definition q_random :: "state \<Rightarrow> 32 word \<times> state" where
  "q_random s =
     (let s1 = s\<lparr>seed := signed_drop_bit 16 (seed s) + (push_bit 15 (seed s) AND M)
                        - signed_drop_bit 21 (seed s) - (push_bit 10 (seed s) AND M)\<rparr>;
          s2 = (if seed s1 <s 0 then s1\<lparr>seed := seed s1 + M\<rparr> else s1)
      in (seed s2, s2))"

text \<open>\<open>n\<close> successive calls, with the values they return.\<close>

primrec q_random_seq :: "nat \<Rightarrow> state \<Rightarrow> 32 word list" where
  "q_random_seq 0 s = []"
| "q_random_seq (Suc n) s = fst (q_random s) # q_random_seq n (snd (q_random s))"

definition updateSeed :: "state \<Rightarrow> event list \<times> state" where
  "updateSeed s =
     (if eeprom_seed s = seed s then ([], s)
      else ([Eeprom_write_dword (seed s)], s\<lparr>eeprom_seed := seed s\<rparr>))"

subsection \<open>The timer interrupt\<close>

text \<open>
  \<open>offset\<close> is an \<open>int\<close>; the sum \<open>CLOCK_BASIC_CYCLE + offset\<close> is stored into the 8-bit
  register OCR0A, which keeps its low 8 bits.
\<close>

definition ISR :: "config \<Rightarrow> state \<Rightarrow> state" where
  "ISR cfg s =
     (let crystal_cycles = (ucast (OCR0A s) :: 32 word);
          rollover = (SW_TRIM cfg \<and> trim_pos s < crystal_cycles);
          offset = (if rollover then sint (eeprom_trim s) else 0);
          trim_pos' = (if SW_TRIM cfg
                       then (if rollover then trim_pos s + 10000000 else trim_pos s)
                            - crystal_cycles
                       else trim_pos s);
          cp = cycle_pos s + 1;
          ocr1 = (if unat cp = CLOCK_NUM_LONG_CYCLES cfg
                  then word_of_int (CLOCK_BASIC_CYCLE cfg + offset) else OCR0A s);
          ocr2 = (if unat cp \<ge> CLOCK_CYCLES cfg
                  then word_of_int (CLOCK_BASIC_CYCLE cfg + 1 + offset) else ocr1);
          cp2 = (if unat cp \<ge> CLOCK_CYCLES cfg then 0 else cp)
      in s\<lparr>cycle_pos := cp2, trim_pos := trim_pos', OCR0A := ocr2,
           sleep_miss_counter := sleep_miss_counter s + 1\<rparr>)"

text \<open>
  Timer 0 runs in CTC mode: it counts from 0 up to OCR0A inclusive and then raises the
  compare interrupt, so the interval that ends in an interrupt lasts \<open>OCR0A + 1\<close> timer
  counts ("it's 0 based and inclusive"), with the OCR0A in force before the handler runs.
\<close>

definition interval_length :: "state \<Rightarrow> nat" where
  "interval_length s = unat (OCR0A s) + 1"

subsection \<open>\<open>doSleep\<close> and \<open>doTick\<close>\<close>

text \<open>
  \<open>sleep_mode()\<close> halts the processor until the next timer interrupt, whose handler runs
  before \<open>sleep_mode()\<close> returns. Interrupts that arrive while the main program is
  running are separate steps (see \<open>exec\<close>); the handler and the main program share
  only \<open>sleep_miss_counter\<close>, which \<open>doSleep\<close> touches inside its atomic block.
\<close>

definition doSleep :: "config \<Rightarrow> state \<Rightarrow> run" where
  "doSleep cfg s =
     (let s1 = s\<lparr>seed_update_timer := seed_update_timer s - 1\<rparr>;
          (ev, s2) = (if seed_update_timer s1 = 0
                      then (case updateSeed s1 of
                              (ev, u) \<Rightarrow> (ev, u\<lparr>seed_update_timer := SEED_UPDATE_INTERVAL\<rparr>))
                      else ([], s1));
          local_smc = sleep_miss_counter s2;
          s3 = s2\<lparr>sleep_miss_counter := sleep_miss_counter s2 - 1\<rparr>
      in if local_smc = 0
         then (ev @ [Eat_tick local_smc, Sleep_mode], Returns (ISR cfg s3))
         else if DEBUG cfg
         then (ev @ [Eat_tick local_smc, PORTB_out (PORTB s3 OR BV P_UNUSED)],
               Locks_up (s3\<lparr>PORTB := PORTB s3 OR BV P_UNUSED\<rparr>))
         else (ev @ [Eat_tick local_smc], Returns s3))"

definition TICK_PIN :: "8 word \<Rightarrow> 8 word" where
  "TICK_PIN lt = (if lt = P0 then P1 else P0)"

definition doTick :: "config \<Rightarrow> state \<Rightarrow> run" where
  "doTick cfg s =
     (let s1 = s\<lparr>PORTB := PORTB s OR BV (TICK_PIN (lastTick s))\<rparr>;
          s2 = s1\<lparr>PORTB := PORTB s1 AND NOT (BV (TICK_PIN (lastTick s1)))\<rparr>;
          s3 = s2\<lparr>lastTick := TICK_PIN (lastTick s2)\<rparr>
      in and_then ([PORTB_out (PORTB s1), Delay_ms TICK_LENGTH, PORTB_out (PORTB s2)],
                   Returns s3)
                  (doSleep cfg))"

subsection \<open>\<open>main\<close>\<close>

text \<open>
  The state at reset: statics are zero unless initialised (\<open>lastTick = P0\<close>), the I/O
  registers hold their reset value 0, and the EEPROM holds whatever it held.
\<close>

definition power_on :: "32 word \<Rightarrow> 16 word \<Rightarrow> state" where
  "power_on e t =
     \<lparr>seed = 0, seed_update_timer = 0, sleep_miss_counter = 0, lastTick = P0,
      cycle_pos = 0, trim_pos = 0, seedUpdateAfter = 0, OCR0A = 0, PORTB = 0,
      eeprom_seed = e, eeprom_trim = t\<rparr>"

text \<open>Lines 210 and 212 of \<open>main\<close>: read the persisted seed and guard it.\<close>

definition load_seed :: "state \<Rightarrow> state" where
  "load_seed s =
     (let s1 = s\<lparr>seed := eeprom_seed s\<rparr>
      in if seed s1 = 0 \<or> (seed s1 AND M) = M then s1\<lparr>seed := 0x12345678\<rparr> else s1)"

text \<open>Lines 210 to 214: guard, perturb once, write back.\<close>

definition initialize :: "state \<Rightarrow> event list \<times> state" where
  "initialize s = updateSeed (snd (q_random (load_seed s)))"

text \<open>\<open>main\<close> up to the hand-off to \<open>loop()\<close>.\<close>

definition main_setup :: "config \<Rightarrow> state \<Rightarrow> event list \<times> state" where
  "main_setup cfg s =
     (let s1 = s\<lparr>PORTB := 0\<rparr>;
          (ev, s2) = initialize s1;
          s3 = s2\<lparr>seed_update_timer := SEED_UPDATE_INTERVAL\<rparr>;
          s4 = s3\<lparr>OCR0A := word_of_int (CLOCK_BASIC_CYCLE cfg + 1)\<rparr>
      in (PORTB_out 0 # ev, s4))"

definition boot :: "config \<Rightarrow> 32 word \<Rightarrow> 16 word \<Rightarrow> state" where
  "boot cfg e t = snd (main_setup cfg (power_on e t))"

text \<open>
  The timer counts that elapse over \<open>n\<close> consecutive interrupts, the first of them being
  interrupt number \<open>j + 1\<close> after state \<open>s\<close>.
\<close>

definition elapsed :: "config \<Rightarrow> state \<Rightarrow> nat \<Rightarrow> nat \<Rightarrow> nat" where
  "elapsed cfg s j n = (\<Sum>i = j..<j + n. interval_length ((ISR cfg ^^ i) s))"

subsection \<open>Schedules of calls and interrupts\<close>

text \<open>
  A schedule lists what happens in order: a call of \<open>doTick\<close> or \<open>doSleep\<close> by the main
  program, or a timer interrupt that arrives while the main program is awake.
\<close>

datatype call = Call_doTick | Call_doSleep | Timer_interrupt

fun call_run :: "config \<Rightarrow> call \<Rightarrow> state \<Rightarrow> run" where
  "call_run cfg Call_doTick s = doTick cfg s"
| "call_run cfg Call_doSleep s = doSleep cfg s"
| "call_run cfg Timer_interrupt s = ([], Returns (ISR cfg s))"

fun exec :: "config \<Rightarrow> call list \<Rightarrow> state \<Rightarrow> run" where
  "exec cfg [] s = ([], Returns s)"
| "exec cfg (c # cs) s = and_then (call_run cfg c s) (exec cfg cs)"

subsection \<open>The lazy clock: \<open>loop()\<close>\<close>

text \<open>\<open>loop()\<close> starts its countdown before the first iteration (line 31).\<close>

definition loop_entry :: "state \<Rightarrow> state" where
  "loop_entry s = s\<lparr>seedUpdateAfter := SEED_UPDATE_INTERVAL\<rparr>"

text \<open>
  One iteration of the \<open>while(1)\<close>. \<open>random()\<close> is the C library's generator, not
  \<open>q_random\<close>; its state is the library's own, so the value \<open>r\<close> it returns in this
  iteration is an input. \<open>%\<close> truncates towards zero (\<open>smod\<close>), and the result is
  converted to \<open>unsigned char\<close> (\<open>tick_count_of\<close> is the initialiser of \<open>tick_count\<close>).
  \<open>tick_count * 8\<close> is computed in \<open>int\<close> and is at most 2040.
\<close>

definition tick_count_of :: "32 word \<Rightarrow> 8 word" where
  "tick_count_of r = word_of_int (sint r smod 30 + 1)"

definition loop_body :: "config \<Rightarrow> 32 word \<Rightarrow> state \<Rightarrow> run" where
  "loop_body cfg r s =
     (let s1 = s\<lparr>seedUpdateAfter := seedUpdateAfter s - 1\<rparr>;
          (ev, s2) = (if seedUpdateAfter s1 = 0
                      then (case updateSeed s1 of
                              (ev, u) \<Rightarrow> (ev, u\<lparr>seedUpdateAfter := SEED_UPDATE_INTERVAL\<rparr>))
                      else ([], s1));
          tick_count = tick_count_of r
      in and_then
           (and_then (ev, Returns s2)
              (repeat (unat tick_count) (\<lambda>s. and_then (doTick cfg s) (doSleep cfg))))
           (repeat (unat tick_count * 8) (doSleep cfg)))"

text \<open>
  The first iterations of the \<open>while(1)\<close>, one for each value in the list of values that
  \<open>random()\<close> returns, and \<open>loop()\<close> itself up to that point.
\<close>

fun loop_iterations :: "config \<Rightarrow> 32 word list \<Rightarrow> state \<Rightarrow> run" where
  "loop_iterations cfg [] s = ([], Returns s)"
| "loop_iterations cfg (r # rs) s = and_then (loop_body cfg r s) (loop_iterations cfg rs)"

definition loop :: "config \<Rightarrow> 32 word list \<Rightarrow> state \<Rightarrow> run" where
  "loop cfg rs s = loop_iterations cfg rs (loop_entry s)"

subsection \<open>Observations on a run\<close>

text \<open>Ticks eaten: the atomic decrements of \<open>sleep_miss_counter\<close>.\<close>

fun is_Eat_tick :: "event \<Rightarrow> bool" where
  "is_Eat_tick (Eat_tick w) = True"
| "is_Eat_tick e = False"

definition ticks_eaten :: "event list \<Rightarrow> nat" where
  "ticks_eaten es = length (filter is_Eat_tick es)"

text \<open>Pulses: the busy-waits of \<open>TICK_LENGTH\<close> milliseconds, one inside each \<open>doTick\<close>.\<close>

definition pulses :: "event list \<Rightarrow> nat" where
  "pulses es = length (filter (\<lambda>e. e = Delay_ms TICK_LENGTH) es)"

text \<open>The coil pins that go from low to high, in order, given the PORTB before the run.\<close>

fun driven :: "8 word \<Rightarrow> event list \<Rightarrow> 8 word list" where
  "driven prev [] = []"
| "driven prev (PORTB_out w # es) =
     filter (\<lambda>p. bit w (unat p) \<and> \<not> bit prev (unat p)) [P0, P1] @ driven w es"
| "driven prev (e # es) = driven prev es"

fun both_coils_high :: "event \<Rightarrow> bool" where
  "both_coils_high (PORTB_out w) = (bit w (unat P0) \<and> bit w (unat P1))"
| "both_coils_high e = False"

text \<open>Whether a run returned, and the state it returned or locked up in.\<close>

fun returns :: "outcome \<Rightarrow> bool" where
  "returns (Returns s) = True"
| "returns (Locks_up s) = False"

fun final :: "outcome \<Rightarrow> state" where
  "final (Returns s) = s"
| "final (Locks_up s) = s"

primrec alternating :: "8 word \<Rightarrow> nat \<Rightarrow> 8 word list" where
  "alternating p 0 = []"
| "alternating p (Suc n) = p # alternating (TICK_PIN p) n"

text \<open>The PORTB value after a run, given the one before it.\<close>

fun port_after :: "8 word \<Rightarrow> event list \<Rightarrow> 8 word" where
  "port_after prev [] = prev"
| "port_after prev (PORTB_out w # es) = port_after w es"
| "port_after prev (e # es) = port_after prev es"

text \<open>Both coil pins low, as \<open>main\<close> leaves them (\<open>PORTB = 0\<close>).\<close>

definition coils_low :: "8 word \<Rightarrow> bool" where
  "coils_low w = (\<not> bit w (unat P0) \<and> \<not> bit w (unat P1))"

text \<open>
  What one call leaves behind: the pins it drove, the coil pins low again, never both
  high, the \<open>lastTick\<close> it leaves, and a return unless the build is a DEBUG build.
\<close>

definition tidy :: "config \<Rightarrow> 8 word \<Rightarrow> 8 word \<Rightarrow> 8 word list \<Rightarrow> run \<Rightarrow> bool" where
  "tidy cfg p l d r \<longleftrightarrow>
     driven p (fst r) = d \<and> coils_low (port_after p (fst r)) \<and>
     list_all (\<lambda>e. \<not> both_coils_high e) (fst r) \<and>
     lastTick (final (snd r)) = l \<and> coils_low (PORTB (final (snd r))) \<and>
     (DEBUG cfg \<or> returns (snd r))"

subsection \<open>The backlog as the specification words it\<close>

text \<open>
  A schedule in which consumes (calls of \<open>doSleep\<close> or \<open>doTick\<close>) never outnumber
  produces (timer interrupts), starting from a backlog of \<open>b\<close>.
\<close>

fun never_outnumber :: "nat \<Rightarrow> call list \<Rightarrow> bool" where
  "never_outnumber b [] = True"
| "never_outnumber b (Timer_interrupt # cs) = never_outnumber (Suc b) cs"
| "never_outnumber b (c # cs) = (0 < b \<and> never_outnumber (b - 1) cs)"

text \<open>The same, and the backlog never exceeds 255, the largest \<open>unsigned char\<close>.\<close>

fun within_capacity :: "nat \<Rightarrow> call list \<Rightarrow> bool" where
  "within_capacity b [] = True"
| "within_capacity b (Timer_interrupt # cs) = (b < 255 \<and> within_capacity (Suc b) cs)"
| "within_capacity b (c # cs) = (0 < b \<and> within_capacity (b - 1) cs)"

text \<open>No consume found the counter at 0, and none slept.\<close>

definition awake :: "event list \<Rightarrow> bool" where
  "awake es = list_all (\<lambda>e. e \<noteq> Eat_tick 0 \<and> e \<noteq> Sleep_mode) es"

definition produced :: "call list \<Rightarrow> nat" where
  "produced cs = count_list cs Timer_interrupt"

definition consumed :: "call list \<Rightarrow> nat" where
  "consumed cs = length cs - count_list cs Timer_interrupt"

subsection \<open>The generator as the specification words it\<close>

text \<open>
  The recurrence on mathematical integers: \<open>>> n\<close> is division by \<open>2 ^ n\<close> rounding
  down, \<open><< n\<close> is multiplication by \<open>2 ^ n\<close>, and the modulus \<open>2 ^ 31 - 1\<close> is added
  once when the result is negative.
\<close>

definition spec_next :: "int \<Rightarrow> int" where
  "spec_next z =
     (let r = z div 2 ^ 16 + (z * 2 ^ 15) mod 2 ^ 31 - z div 2 ^ 21 - (z * 2 ^ 10) mod 2 ^ 31
      in if r < 0 then r + (2 ^ 31 - 1) else r)"

text \<open>The same sum before the modulus is added.\<close>

definition raw_next :: "int \<Rightarrow> int" where
  "raw_next z = z div 2 ^ 16 + (z * 2 ^ 15) mod 2 ^ 31 - z div 2 ^ 21 - (z * 2 ^ 10) mod 2 ^ 31"

text \<open>The seed invariant of the specification: neither 0 nor the modulus \<open>M\<close>.\<close>

definition seed_invariant :: "32 word \<Rightarrow> bool" where
  "seed_invariant w = (w \<noteq> 0 \<and> w \<noteq> M)"

section \<open>The generator\<close>

subsection \<open>From words to integers\<close>

lemma M_mask: "M = mask 31" by (simp add: M_def mask_eq_exp_minus_1)

lemma uint_shl_mask:
  fixes w :: "32 word"
  shows "uint (push_bit n w AND M) = (sint w * 2 ^ n) mod 2 ^ 31"
proof -
  have "uint (push_bit n w AND M) = take_bit 31 (uint (push_bit n w))"
    unfolding M_mask by (simp flip: take_bit_eq_mask add: unsigned_take_bit_eq)
  also have "\<dots> = take_bit 31 (take_bit 32 (push_bit n (uint w)))"
    by (simp add: unsigned_push_bit_eq)
  also have "\<dots> = take_bit 31 (push_bit n (uint w))"
    by simp
  also have "\<dots> = (uint w * 2 ^ n) mod 2 ^ 31"
    by (simp add: take_bit_eq_mod push_bit_eq_mult)
  also have "\<dots> = (sint w * 2 ^ n) mod 2 ^ 31"
  proof -
    have "uint w = sint w mod 2 ^ 32"
      by (simp add: uint_sint take_bit_eq_mod)
    then have "uint w = sint w - 2 ^ 32 * (sint w div 2 ^ 32)"
      by (simp add: minus_mult_div_eq_mod)
    then obtain q where "uint w = sint w - 2 ^ 32 * q" ..
    then have "uint w * 2 ^ n = (sint w - 2 ^ 32 * q) * 2 ^ n"
      by simp
    also have "\<dots> = sint w * 2 ^ n + 2 ^ 31 * (- 2 * q * 2 ^ n)"
      by (simp add: algebra_simps)
    finally show ?thesis
      by (simp only: mod_mult_self2)
  qed
  finally show ?thesis .
qed

lemma sint_shl_mask:
  fixes w :: "32 word"
  shows "sint (push_bit n w AND M) = (sint w * 2 ^ n) mod 2 ^ 31"
proof -
  let ?x = "push_bit n w AND M"
  have u: "uint ?x = (sint w * 2 ^ n) mod 2 ^ 31" by (rule uint_shl_mask)
  have "- (2 ^ 31) \<le> uint ?x" "uint ?x < 2 ^ 31" by (simp_all add: u)
  then have "signed_take_bit 31 (uint ?x) = uint ?x"
    by (rule signed_take_bit_int_eq_self)
  then have "sint ?x = uint ?x" by (simp add: sint_uint)
  then show ?thesis by (simp add: u)
qed

lemma sint_asr:
  fixes w :: "32 word"
  shows "sint (signed_drop_bit n w) = sint w div 2 ^ n"
  by (simp add: sint_signed_drop_bit_eq drop_bit_eq_div)

lemma raw_next_mult:
  "raw_next z = 31744 * z - (2 ^ 31 - 1) * (z div 2 ^ 16 - z div 2 ^ 21)"
proof -
  have a: "(z * 2 ^ 15) mod 2 ^ 31 = 2 ^ 15 * (z mod 2 ^ 16)"
    using mult_mod_right[of "2 ^ 15" z "2 ^ 16"] by (simp add: mult.commute)
  have b: "(z * 2 ^ 10) mod 2 ^ 31 = 2 ^ 10 * (z mod 2 ^ 21)"
    using mult_mod_right[of "2 ^ 10" z "2 ^ 21"] by (simp add: mult.commute)
  have c: "z mod 2 ^ 16 = z - 2 ^ 16 * (z div 2 ^ 16)"
    by (simp add: minus_mult_div_eq_mod)
  have d: "z mod 2 ^ 21 = z - 2 ^ 21 * (z div 2 ^ 21)"
    by (simp add: minus_mult_div_eq_mod)
  show ?thesis
    unfolding raw_next_def a b c d by (simp add: algebra_simps)
qed

lemma raw_next_split:
  "raw_next z = z div 2 ^ 16 - z div 2 ^ 16 div 32 + 31744 * (z mod 2 ^ 16)
                - 2 ^ 26 * (z div 2 ^ 16 mod 32)"
proof -
  have a: "(z * 2 ^ 15) mod 2 ^ 31 = 2 ^ 15 * (z mod 2 ^ 16)"
    using mult_mod_right[of "2 ^ 15" z "2 ^ 16"] by (simp add: mult.commute)
  have b: "(z * 2 ^ 10) mod 2 ^ 31 = 2 ^ 10 * (z mod 2 ^ 21)"
    using mult_mod_right[of "2 ^ 10" z "2 ^ 21"] by (simp add: mult.commute)
  have c: "z div 2 ^ 21 = z div 2 ^ 16 div 32"
    using zdiv_zmult2_eq[of 32 z "2 ^ 16"] by simp
  have d: "z mod 2 ^ 21 = 2 ^ 16 * (z div 2 ^ 16 mod 32) + z mod 2 ^ 16"
    using zmod_zmult2_eq[of 32 z "2 ^ 16"] by simp
  show ?thesis
    unfolding raw_next_def a b c d by (simp add: algebra_simps)
qed

lemma raw_next_bounds:
  assumes "- (2 ^ 31) \<le> z" "z < 2 ^ 31"
  shows "- (2 ^ 31 - 1) < raw_next z \<and> raw_next z < 2 ^ 31 - 1"
proof -
  define a where "a = z div 2 ^ 16"
  have a: "- (2 ^ 15) \<le> a" "a < 2 ^ 15"
    using assms unfolding a_def by (simp_all add: div_less_iff_less_mult less_eq_div_iff_mult_less_eq)
  define l where "l = z mod 2 ^ 16"
  define h where "h = a mod 32"
  have l: "0 \<le> l" "l < 2 ^ 16" by (simp_all add: l_def)
  have h: "0 \<le> h" "h < 32" by (simp_all add: h_def)
  have c: "- (2 ^ 10) \<le> a div 32" "a div 32 < 2 ^ 10"
    using a by (simp_all add: div_less_iff_less_mult less_eq_div_iff_mult_less_eq)
  show ?thesis
    unfolding raw_next_split a_def[symmetric] l_def[symmetric] h_def[symmetric]
    using a l h c by simp
qed


lemma spec_next_raw: "spec_next z = (if raw_next z < 0 then raw_next z + (2 ^ 31 - 1) else raw_next z)"
  by (simp add: spec_next_def raw_next_def Let_def)

lemma sint_wi_32: "- (2 ^ 31) \<le> k \<Longrightarrow> k < 2 ^ 31 \<Longrightarrow> sint (word_of_int k :: 32 word) = k"
  by (simp add: sint_sbintrunc' signed_take_bit_int_eq_self)

lemma wi_sint: "word_of_int (sint w) = (w :: 32 word)"
  by simp

lemma q_random_raw:
  fixes w :: "32 word"
  shows "signed_drop_bit 16 w + (push_bit 15 w AND M) - signed_drop_bit 21 w - (push_bit 10 w AND M)
         = word_of_int (raw_next (sint w))"
proof -
  have "signed_drop_bit 16 w = word_of_int (sint w div 2 ^ 16)"
    by (metis sint_asr wi_sint)
  moreover have "signed_drop_bit 21 w = word_of_int (sint w div 2 ^ 21)"
    by (metis sint_asr wi_sint)
  moreover have "push_bit 15 w AND M = word_of_int ((sint w * 2 ^ 15) mod 2 ^ 31)"
    by (metis sint_shl_mask wi_sint)
  moreover have "push_bit 10 w AND M = word_of_int ((sint w * 2 ^ 10) mod 2 ^ 31)"
    by (metis sint_shl_mask wi_sint)
  ultimately show ?thesis
    by (simp add: raw_next_def)
qed

lemma sint_seed_range: "- (2 ^ 31) \<le> sint (w :: 32 word) \<and> sint w < 2 ^ 31"
  using sint_ge[of w] sint_lt[of w] by simp

lemma sint_q_random:
  "sint (fst (q_random s)) = spec_next (sint (seed s))"
proof -
  let ?z = "sint (seed s)"
  let ?x = "word_of_int (raw_next ?z) :: 32 word"
  have b: "- (2 ^ 31 - 1) < raw_next ?z \<and> raw_next ?z < 2 ^ 31 - 1"
    using sint_seed_range[of "seed s"] by (intro raw_next_bounds) simp_all
  have r: "sint ?x = raw_next ?z"
    using b by (intro sint_wi_32) simp_all
  have q: "fst (q_random s) = (if ?x <s 0 then ?x + M else ?x)"
    by (simp add: q_random_def Let_def q_random_raw)
  show ?thesis
  proof (cases "raw_next ?z < 0")
    case True
    have "?x + M = word_of_int (raw_next ?z + (2 ^ 31 - 1))"
      by (simp add: M_def)
    moreover have "sint (word_of_int (raw_next ?z + (2 ^ 31 - 1)) :: 32 word)
                   = raw_next ?z + (2 ^ 31 - 1)"
      using b True by (intro sint_wi_32) simp_all
    ultimately have "sint (?x + M) = raw_next ?z + (2 ^ 31 - 1)"
      by simp
    with True show ?thesis
      by (simp add: q word_sless_alt r spec_next_raw del: of_int_add)
  next
    case False
    then show ?thesis
      by (simp add: q word_sless_alt r spec_next_raw del: of_int_add)
  qed
qed

lemma seed_q_random: "seed (snd (q_random s)) = fst (q_random s)"
  by (simp add: q_random_def Let_def)


lemma spec_next_range:
  assumes "- (2 ^ 31) \<le> z" "z < 2 ^ 31"
  shows "0 \<le> spec_next z \<and> spec_next z \<le> 2 ^ 31 - 2"
  using raw_next_bounds[OF assms] by (simp add: spec_next_raw)

lemma spec_next_congruent:
  "\<exists>k. spec_next z = 31744 * z - 2147483647 * k"
proof (cases "raw_next z < 0")
  case True
  then have "spec_next z = 31744 * z - 2147483647 * (z div 2 ^ 16 - z div 2 ^ 21 - 1)"
    by (simp add: spec_next_raw raw_next_mult algebra_simps)
  then show ?thesis ..
next
  case False
  then have "spec_next z = 31744 * z - 2147483647 * (z div 2 ^ 16 - z div 2 ^ 21)"
    by (simp add: spec_next_raw raw_next_mult algebra_simps)
  then show ?thesis ..
qed

lemma spec_next_zero_dvd:
  assumes "spec_next z = 0"
  shows "\<exists>j. z = 2147483647 * j"
proof -
  obtain k where "spec_next z = 31744 * z - 2147483647 * k"
    using spec_next_congruent by blast
  with assms have "31744 * z = 2147483647 * k" by simp
  then have "z = 2147483647 * (2009003965 * k - 29697 * z)" by simp
  then show ?thesis ..
qed

lemma spec_next_fixed_dvd:
  assumes "spec_next z = z"
  shows "\<exists>j. z = 2147483647 * j"
proof -
  obtain k where "spec_next z = 31744 * z - 2147483647 * k"
    using spec_next_congruent by blast
  with assms have "31743 * z = 2147483647 * k" by simp
  then have "z = 2147483647 * (564963486 * k - 8351 * z)" by simp
  then show ?thesis ..
qed

lemma multiple_in_range:
  fixes z j :: int
  assumes "z = 2147483647 * j" "- (2 ^ 31) \<le> z" "z < 2 ^ 31"
  shows "z = - 2147483647 \<or> z = 0 \<or> z = 2147483647"
proof -
  have "- 2 < j" "j < 2" using assms by simp_all
  then have "j = -1 \<or> j = 0 \<or> j = 1" by arith
  with assms(1) show ?thesis by auto
qed


subsection \<open>One step, the sequence, and the seed at start-up\<close>

lemma q_random_snd: "snd (q_random s) = s\<lparr>seed := fst (q_random s)\<rparr>"
  by (simp add: q_random_def Let_def)

lemma sint_inj_32: "sint (a :: 32 word) = sint b \<Longrightarrow> a = b"
  by (metis wi_sint)

lemma q_random_seq_spec:
  "q_random_seq n s = map (\<lambda>k. word_of_int ((spec_next ^^ Suc k) (sint (seed s)))) [0..<n]"
proof (induction n arbitrary: s)
  case 0
  show ?case by simp
next
  case (Suc n)
  have hd: "fst (q_random s) = word_of_int (spec_next (sint (seed s)))"
    by (metis sint_q_random wi_sint)
  have sd: "sint (seed (snd (q_random s))) = spec_next (sint (seed s))"
    by (simp add: q_random_snd sint_q_random)
  have "map (\<lambda>k. word_of_int ((spec_next ^^ Suc k) (sint (seed s))) :: 32 word) [0..<Suc n]
        = word_of_int (spec_next (sint (seed s)))
          # map (\<lambda>k. word_of_int ((spec_next ^^ Suc k) (spec_next (sint (seed s))))) [0..<n]"
    by (simp only: upt_conv_Cons[of 0 "Suc n"] map_Suc_upt[symmetric] list.map map_map o_def
          funpow_swap1[symmetric]) simp
  then show ?case
    by (simp only: q_random_seq.simps Suc.IH sd hd)
qed

text \<open>
  Claim C3. For every 32-bit seed, one call of \<open>q_random\<close> returns, and stores as the
  new seed, exactly the value of the specification's recurrence; nothing else of the
  state changes, so the sequence of values returned by any number of successive calls is
  a function of the starting seed alone.
\<close>

theorem q_random_refines_spec:
  "sint (fst (q_random s)) = spec_next (sint (seed s)) \<and>
   snd (q_random s) = s\<lparr>seed := fst (q_random s)\<rparr> \<and>
   q_random_seq n s = map (\<lambda>k. word_of_int ((spec_next ^^ Suc k) (sint (seed s)))) [0..<n]"
  by (simp only: sint_q_random q_random_snd[symmetric] q_random_seq_spec[symmetric])

lemma next_nonzero:
  assumes "sint w \<noteq> 0" "sint w \<noteq> 2147483647" "sint w \<noteq> - 2147483647"
  shows "spec_next (sint (w :: 32 word)) \<noteq> 0"
proof
  assume "spec_next (sint w) = 0"
  then obtain j where "sint w = 2147483647 * j"
    using spec_next_zero_dvd by blast
  then have "sint w = - 2147483647 \<or> sint w = 0 \<or> sint w = 2147483647"
    using sint_seed_range[of w] by (intro multiple_in_range) simp_all
  with assms show False by simp
qed

lemma next_not_fixed:
  assumes "sint w \<noteq> 0" "sint w \<noteq> 2147483647"
  shows "spec_next (sint (w :: 32 word)) \<noteq> sint w"
proof
  assume f: "spec_next (sint w) = sint w"
  then obtain j where "sint w = 2147483647 * j"
    using spec_next_fixed_dvd by blast
  then have "sint w = - 2147483647 \<or> sint w = 0 \<or> sint w = 2147483647"
    using sint_seed_range[of w] by (intro multiple_in_range) simp_all
  with assms have "sint w = - 2147483647" by simp
  with f show False by (simp add: spec_next_def)
qed

lemma sint_M: "sint M = 2147483647" by (simp add: M_def)

lemma load_seed_cases:
  "(seed (load_seed s) = 0x12345678 \<and> (eeprom_seed s = 0 \<or> (eeprom_seed s AND M) = M)) \<or>
   (seed (load_seed s) = eeprom_seed s \<and> eeprom_seed s \<noteq> 0 \<and> (eeprom_seed s AND M) \<noteq> M)"
  by (simp add: load_seed_def Let_def)

lemma load_seed_other: "load_seed s = s\<lparr>seed := seed (load_seed s)\<rparr>"
  by (simp add: load_seed_def Let_def)

lemma q_random_constant: "fst (q_random (s\<lparr>seed := 0x12345678\<rparr>)) = 1507996066"
proof -
  have "sint (fst (q_random (s\<lparr>seed := 0x12345678\<rparr>))) = 1507996066"
    by (simp add: sint_q_random spec_next_def)
  then show ?thesis by (intro sint_inj_32) simp
qed


lemma sint_zero_iff: "sint (w :: 32 word) = 0 \<longleftrightarrow> w = 0"
  by (metis sint_0 wi_sint)

lemma sint_M_imp: "sint (w :: 32 word) = 2147483647 \<Longrightarrow> (w AND M) = M"
proof -
  assume "sint w = 2147483647"
  then have "sint w = sint M" by (simp add: sint_M)
  then have "w = M" by (rule sint_inj_32)
  then show ?thesis by simp
qed

lemma sint_bad_imp: "sint (w :: 32 word) = - 2147483647 \<Longrightarrow> w = 0x80000001"
  by (intro sint_inj_32) simp

text \<open>
  Claim C5. For every persisted seed, lines 210 to 214 of \<open>main\<close> advance the generator
  exactly once from the guarded seed and then write the new seed to the EEPROM: the test
  in \<open>updateSeed\<close> never suppresses this write, because the new seed always differs
  from the value read, and so the persisted seed after start-up differs from the one
  before.
\<close>

theorem initialize_changes_persisted_seed:
  "fst (initialize s) = [Eeprom_write_dword (fst (q_random (load_seed s)))] \<and>
   seed (snd (initialize s)) = fst (q_random (load_seed s)) \<and>
   eeprom_seed (snd (initialize s)) = fst (q_random (load_seed s)) \<and>
   eeprom_seed (snd (initialize s)) \<noteq> eeprom_seed s"
proof -
  let ?e = "eeprom_seed s"
  let ?f = "fst (q_random (load_seed s))"
  have ne: "?f \<noteq> ?e"
  proof (cases "seed (load_seed s) = 0x12345678 \<and> (?e = 0 \<or> (?e AND M) = M)")
    case True
    then have "load_seed s = s\<lparr>seed := 0x12345678\<rparr>"
      using load_seed_other[of s] by simp
    then have f: "?f = 1507996066" by (simp add: q_random_constant)
    have "(1507996066 :: 32 word) \<noteq> 0" "((1507996066 :: 32 word) AND M) \<noteq> M"
      by (simp_all add: M_def)
    with True f show ?thesis by auto
  next
    case False
    then have g: "seed (load_seed s) = ?e" "?e \<noteq> 0" "(?e AND M) \<noteq> M"
      using load_seed_cases[of s] by auto
    have "sint ?e \<noteq> 0" "sint ?e \<noteq> 2147483647"
      using g sint_zero_iff sint_M_imp by blast+
    then have "spec_next (sint ?e) \<noteq> sint ?e" by (rule next_not_fixed)
    then have "sint ?f \<noteq> sint ?e" by (simp add: sint_q_random g)
    then show ?thesis by auto
  qed
  have e: "eeprom_seed (snd (q_random (load_seed s))) = ?e"
    by (simp add: q_random_def load_seed_def Let_def)
  have sd: "seed (snd (q_random (load_seed s))) = ?f"
    by (simp add: q_random_def Let_def)
  show ?thesis
    using ne by (simp add: initialize_def updateSeed_def e sd)
qed

lemma q_random_keeps_invariant:
  assumes "sint (seed s) \<noteq> 0" "sint (seed s) \<noteq> 2147483647" "sint (seed s) \<noteq> - 2147483647"
  shows "0 \<le> sint (fst (q_random s)) \<and> seed_invariant (fst (q_random s))"
proof -
  let ?z = "sint (seed s)"
  have r: "0 \<le> spec_next ?z \<and> spec_next ?z \<le> 2 ^ 31 - 2"
    using sint_seed_range[of "seed s"] by (intro spec_next_range) simp_all
  have nz: "spec_next ?z \<noteq> 0"
    using assms by (rule next_nonzero)
  have "fst (q_random s) \<noteq> 0"
  proof
    assume "fst (q_random s) = 0"
    then have "sint (fst (q_random s)) = 0" by simp
    with nz show False by (simp only: sint_q_random)
  qed
  moreover have "fst (q_random s) \<noteq> M"
  proof
    assume "fst (q_random s) = M"
    then have "sint (fst (q_random s)) = 2147483647" by (simp add: sint_M)
    with r show False by (simp only: sint_q_random) simp
  qed
  ultimately show ?thesis
    using r by (simp add: seed_invariant_def sint_q_random)
qed

text \<open>
  Claim C7, as amended. A seed that is not negative and is neither 0 nor \<open>M\<close> (that is,
  a seed between 1 and \<open>2 ^ 31 - 2\<close>) is followed by such a seed; and \<open>initialize\<close>
  leaves such a seed for every persisted value other than \<open>0x80000001\<close>.
\<close>

theorem seed_invariant_preserved:
  "(0 \<le> sint (seed s) \<and> seed_invariant (seed s) \<longrightarrow>
      0 \<le> sint (seed (snd (q_random s))) \<and> seed_invariant (seed (snd (q_random s)))) \<and>
   (eeprom_seed s \<noteq> 0x80000001 \<longrightarrow>
      0 \<le> sint (seed (snd (initialize s))) \<and> seed_invariant (seed (snd (initialize s))))"
proof (intro conjI impI)
  assume a: "0 \<le> sint (seed s) \<and> seed_invariant (seed s)"
  then have "sint (seed s) \<noteq> 0" "sint (seed s) \<noteq> 2147483647" "sint (seed s) \<noteq> - 2147483647"
    using sint_zero_iff[of "seed s"] sint_M_imp[of "seed s"] sint_inj_32[of "seed s" M]
    by (auto simp: seed_invariant_def sint_M)
  then have k: "0 \<le> sint (fst (q_random s)) \<and> seed_invariant (fst (q_random s))"
    by (rule q_random_keeps_invariant)
  have sd: "seed (snd (q_random s)) = fst (q_random s)"
    by (simp add: q_random_def Let_def)
  from k show "0 \<le> sint (seed (snd (q_random s)))" by (simp add: sd)
  from k show "seed_invariant (seed (snd (q_random s)))" by (simp add: sd)
next
  assume a: "eeprom_seed s \<noteq> 0x80000001"
  let ?g = "load_seed s"
  have "sint (seed ?g) \<noteq> 0 \<and> sint (seed ?g) \<noteq> 2147483647 \<and> sint (seed ?g) \<noteq> - 2147483647"
  proof (cases "seed ?g = 0x12345678")
    case True
    then show ?thesis by simp
  next
    case False
    then have g: "seed ?g = eeprom_seed s" "eeprom_seed s \<noteq> 0" "(eeprom_seed s AND M) \<noteq> M"
      using load_seed_cases[of s] by auto
    show ?thesis
      using g a sint_zero_iff sint_M_imp sint_bad_imp by metis
  qed
  then have k: "0 \<le> sint (fst (q_random ?g)) \<and> seed_invariant (fst (q_random ?g))"
    by (intro q_random_keeps_invariant) simp_all
  have sd: "seed (snd (initialize s)) = fst (q_random ?g)"
    by (simp add: initialize_def updateSeed_def q_random_def Let_def)
  from k show "0 \<le> sint (seed (snd (initialize s)))" by (simp add: sd)
  from k show "seed_invariant (seed (snd (initialize s)))" by (simp add: sd)
qed

theorem seed_invariant_preserved_witness:
  "(0 \<le> sint (seed (power_on 1 0\<lparr>seed := 1\<rparr>)) \<and> seed_invariant (seed (power_on 1 0\<lparr>seed := 1\<rparr>))) \<and>
   eeprom_seed (power_on 1 0\<lparr>seed := 1\<rparr>) \<noteq> 0x80000001 \<and>
   0 \<le> sint (seed (snd (q_random (power_on 1 0\<lparr>seed := 1\<rparr>)))) \<and>
   seed_invariant (seed (snd (q_random (power_on 1 0\<lparr>seed := 1\<rparr>)))) \<and>
   0 \<le> sint (seed (snd (initialize (power_on 1 0\<lparr>seed := 1\<rparr>)))) \<and>
   seed_invariant (seed (snd (initialize (power_on 1 0\<lparr>seed := 1\<rparr>))))"
  using seed_invariant_preserved[of "power_on 1 0\<lparr>seed := 1\<rparr>"]
  by (simp add: power_on_def seed_invariant_def M_def)

text \<open>
  The invariant as the specification states it (not 0, not \<open>M\<close>) is not preserved on
  the C type \<open>long\<close>: \<open>0x80000001\<close> (that is, \<open>-(2 ^ 31 - 1)\<close>) satisfies it, passes the
  guard of \<open>main\<close>, and is mapped to 0 by the generator.
\<close>

theorem seed_invariant_counterexample:
  "seed_invariant (seed (power_on 0 0\<lparr>seed := 0x80000001\<rparr>)) \<and>
   \<not> seed_invariant (seed (snd (q_random (power_on 0 0\<lparr>seed := 0x80000001\<rparr>)))) \<and>
   \<not> seed_invariant (seed (snd (initialize (power_on 0x80000001 0))))"
  by (simp add: seed_invariant_def M_def power_on_def q_random_def initialize_def
      load_seed_def updateSeed_def Let_def word_sless_alt)

text \<open>
  Claim C8. A persisted seed of 0 or of \<open>0x7fffffff\<close> is replaced by \<open>0x12345678\<close>
  before the generator is first called, so that the first call starts from that constant.
\<close>

theorem load_seed_replaces_zero_and_max:
  "eeprom_seed s = 0 \<or> eeprom_seed s = 0x7fffffff \<Longrightarrow>
     seed (load_seed s) = 0x12345678 \<and>
     fst (q_random (load_seed s)) = fst (q_random (s\<lparr>seed := 0x12345678\<rparr>))"
  by (auto simp: load_seed_def Let_def M_def q_random_def)

theorem load_seed_replaces_zero_and_max_witness:
  "eeprom_seed (power_on 0 0) = 0 \<and> seed (load_seed (power_on 0 0)) = 0x12345678 \<and>
   eeprom_seed (power_on 0x7fffffff 0) = 0x7fffffff \<and>
   seed (load_seed (power_on 0x7fffffff 0)) = 0x12345678"
  using load_seed_replaces_zero_and_max[of "power_on 0 0"]
        load_seed_replaces_zero_and_max[of "power_on 0x7fffffff 0"]
  by (simp add: power_on_def)

text \<open>
  Claim C10. Every persisted 32-bit value whose low 31 bits are all ones, in particular
  the erased-EEPROM value \<open>0xffffffff\<close> that reads back as \<open>-1\<close>, is replaced by
  \<open>0x12345678\<close> before the generator is first called.
\<close>

theorem load_seed_replaces_low_31_ones:
  "(eeprom_seed s AND M) = M \<Longrightarrow>
     seed (load_seed s) = 0x12345678 \<and>
     fst (q_random (load_seed s)) = fst (q_random (s\<lparr>seed := 0x12345678\<rparr>))"
  by (auto simp: load_seed_def Let_def q_random_def)

theorem load_seed_replaces_low_31_ones_witness:
  "(eeprom_seed (power_on 0xffffffff 0) AND M) = M \<and>
   sint (eeprom_seed (power_on 0xffffffff 0)) = - 1 \<and>
   seed (load_seed (power_on 0xffffffff 0)) = 0x12345678"
  using load_seed_replaces_low_31_ones[of "power_on 0xffffffff 0"]
  by (simp add: power_on_def M_def)


section \<open>The fractional divider\<close>

lemma boot_timer:
  "cycle_pos (boot cfg e t) = 0 \<and> OCR0A (boot cfg e t) = word_of_int (CLOCK_BASIC_CYCLE cfg + 1)
   \<and> trim_pos (boot cfg e t) = 0 \<and> sleep_miss_counter (boot cfg e t) = 0
   \<and> PORTB (boot cfg e t) = 0 \<and> lastTick (boot cfg e t) = P0 \<and> eeprom_trim (boot cfg e t) = t"
  by (simp add: boot_def main_setup_def initialize_def updateSeed_def q_random_def load_seed_def
      power_on_def Let_def split_def)

lemma ISR_four_mhz:
  assumes "unat (cycle_pos s) < 64"
  shows "cycle_pos (ISR (FOUR_MHZ_CLOCK False d) s) = (if unat (cycle_pos s) = 63 then 0 else cycle_pos s + 1)"
    and "OCR0A (ISR (FOUR_MHZ_CLOCK False d) s) =
           (if unat (cycle_pos s) = 52 then 47 else if unat (cycle_pos s) = 63 then 48 else OCR0A s)"
proof -
  have u: "unat (cycle_pos s + 1) = unat (cycle_pos s) + 1"
    using assms by (simp add: unat_word_ariths)
  show "cycle_pos (ISR (FOUR_MHZ_CLOCK False d) s) = (if unat (cycle_pos s) = 63 then 0 else cycle_pos s + 1)"
    using assms by (auto simp: ISR_def FOUR_MHZ_CLOCK_def Let_def u)
  show "OCR0A (ISR (FOUR_MHZ_CLOCK False d) s) =
           (if unat (cycle_pos s) = 52 then 47 else if unat (cycle_pos s) = 63 then 48 else OCR0A s)"
    using assms by (auto simp: ISR_def FOUR_MHZ_CLOCK_def Let_def u)
qed

lemma ISR_four_mhz_iter:
  "unat (cycle_pos (((ISR (FOUR_MHZ_CLOCK False d)) ^^ k) (boot (FOUR_MHZ_CLOCK False d) e t))) = k mod 64 \<and>
   OCR0A (((ISR (FOUR_MHZ_CLOCK False d)) ^^ k) (boot (FOUR_MHZ_CLOCK False d) e t)) =
     (if k mod 64 < 53 then 48 else 47)"
proof (induction k)
  case 0
  show ?case by (simp add: boot_timer FOUR_MHZ_CLOCK_def)
next
  case (Suc k)
  let ?s = "((ISR (FOUR_MHZ_CLOCK False d)) ^^ k) (boot (FOUR_MHZ_CLOCK False d) e t)"
  have c: "unat (cycle_pos ?s) = k mod 64" and o: "OCR0A ?s = (if k mod 64 < 53 then 48 else 47)"
    using Suc.IH by simp_all
  have lt: "unat (cycle_pos ?s) < 64" by (simp add: c)
  have u: "unat (cycle_pos ?s + 1) = k mod 64 + 1"
    using lt by (simp add: unat_word_ariths c)
  have m: "Suc k mod 64 = (if k mod 64 = 63 then 0 else k mod 64 + 1)"
    by (simp add: mod_Suc)
  show ?case
    by (simp only: funpow.simps o_apply ISR_four_mhz[OF lt] c o m) (use u in auto)
qed


lemma window_sum_periodic:
  fixes f :: "nat \<Rightarrow> nat"
  assumes "\<And>i. f (i + 64) = f i"
  shows "(\<Sum>i = j..<j + 64. f i) = (\<Sum>i = 0..<64. f i)"
proof (induction j)
  case 0
  show ?case by simp
next
  case (Suc j)
  have a: "(\<Sum>i = j..<j + 64. f i) = f j + (\<Sum>i = Suc j..<j + 64. f i)"
    by (rule sum.atLeast_Suc_lessThan) simp
  have b: "(\<Sum>i = Suc j..<Suc (j + 64). f i) = (\<Sum>i = Suc j..<j + 64. f i) + f (j + 64)"
    by (rule sum.atLeastLessThan_Suc) simp
  show ?case
    using Suc.IH assms[of j] a b by simp
qed

text \<open>
  Claim C2. In the 4 MHz build without trim, the compare value in force for interrupt
  number \<open>k + 1\<close> after start-up is 48 when \<open>k mod 64 < 53\<close> (interrupts 1 to 53 of the
  cycle) and 47 otherwise (interrupts 54 to 64), and the timer counts elapsed over any 64
  consecutive interrupts total 3125.
\<close>

theorem four_mhz_divider_exact:
  "OCR0A ((ISR (FOUR_MHZ_CLOCK False d) ^^ k) (boot (FOUR_MHZ_CLOCK False d) e t)) =
     (if k mod 64 < 53 then 48 else 47) \<and>
   elapsed (FOUR_MHZ_CLOCK False d) (boot (FOUR_MHZ_CLOCK False d) e t) j 64 = 3125"
proof -
  let ?f = "\<lambda>i. interval_length ((ISR (FOUR_MHZ_CLOCK False d) ^^ i) (boot (FOUR_MHZ_CLOCK False d) e t))"
  have f: "?f i = (if i mod 64 < 53 then 49 else 48)" for i
    by (simp add: interval_length_def ISR_four_mhz_iter)
  have "?f (i + 64) = ?f i" for i
    by (simp only: f) simp
  then have "(\<Sum>i = j..<j + 64. ?f i) = (\<Sum>i = 0..<64. ?f i)"
    by (rule window_sum_periodic)
  also have "\<dots> = (\<Sum>i = 0..<53. ?f i) + (\<Sum>i = 53..<64. ?f i)"
    by (rule sum.atLeastLessThan_concat[symmetric]) simp_all
  also have "(\<Sum>i = 0..<53. ?f i) = (\<Sum>i = (0::nat)..<53. 49)"
    by (intro sum.cong) (simp_all add: f)
  also have "(\<Sum>i = 53..<64. ?f i) = (\<Sum>i = (53::nat)..<64. 48)"
    by (intro sum.cong) (simp_all add: f)
  also have "(\<Sum>i = (0::nat)..<53. 49) + (\<Sum>i = (53::nat)..<64. 48) = (3125 :: nat)"
    by simp
  finally show ?thesis
    by (simp add: elapsed_def ISR_four_mhz_iter)
qed


subsection \<open>Software trim\<close>

lemma ISR_trim_first:
  "trim_pos (ISR (FOUR_MHZ_CLOCK True d) (boot (FOUR_MHZ_CLOCK True d) e t)) = 9999952 \<and>
   cycle_pos (ISR (FOUR_MHZ_CLOCK True d) (boot (FOUR_MHZ_CLOCK True d) e t)) = 1 \<and>
   OCR0A (ISR (FOUR_MHZ_CLOCK True d) (boot (FOUR_MHZ_CLOCK True d) e t)) = 48"
  by (simp add: ISR_def Let_def boot_timer) (simp add: FOUR_MHZ_CLOCK_def)

lemma ISR_trim_quiet:
  assumes c: "unat (cycle_pos s) < 64" and o: "OCR0A s = 48 \<or> OCR0A s = 47"
    and t: "48 \<le> unat (trim_pos s)"
  shows "cycle_pos (ISR (FOUR_MHZ_CLOCK True d) s) = (if unat (cycle_pos s) = 63 then 0 else cycle_pos s + 1)"
    and "OCR0A (ISR (FOUR_MHZ_CLOCK True d) s) =
           (if unat (cycle_pos s) = 52 then 47 else if unat (cycle_pos s) = 63 then 48 else OCR0A s)"
    and "unat (trim_pos (ISR (FOUR_MHZ_CLOCK True d) s)) = unat (trim_pos s) - unat (OCR0A s)"
proof -
  have u: "unat (cycle_pos s + 1) = unat (cycle_pos s) + 1"
    using c by (simp add: unat_word_ariths)
  have le: "(ucast (OCR0A s) :: 32 word) \<le> trim_pos s"
    using o t by (auto simp: word_le_nat_alt)
  then have nr: "\<not> trim_pos s < ucast (OCR0A s)" by simp
  show "cycle_pos (ISR (FOUR_MHZ_CLOCK True d) s) = (if unat (cycle_pos s) = 63 then 0 else cycle_pos s + 1)"
    using c by (auto simp: ISR_def FOUR_MHZ_CLOCK_def Let_def u)
  show "OCR0A (ISR (FOUR_MHZ_CLOCK True d) s) =
           (if unat (cycle_pos s) = 52 then 47 else if unat (cycle_pos s) = 63 then 48 else OCR0A s)"
    using c nr by (auto simp: ISR_def FOUR_MHZ_CLOCK_def Let_def u)
  have "trim_pos (ISR (FOUR_MHZ_CLOCK True d) s) = trim_pos s - ucast (OCR0A s)"
    using nr by (simp add: ISR_def FOUR_MHZ_CLOCK_def Let_def)
  then show "unat (trim_pos (ISR (FOUR_MHZ_CLOCK True d) s)) = unat (trim_pos s) - unat (OCR0A s)"
    using le o by (auto simp: unat_sub)
qed

lemma ISR_trim_iter:
  "k < 200000 \<Longrightarrow>
   unat (cycle_pos ((ISR (FOUR_MHZ_CLOCK True d) ^^ Suc k) (boot (FOUR_MHZ_CLOCK True d) e t))) = Suc k mod 64 \<and>
   OCR0A ((ISR (FOUR_MHZ_CLOCK True d) ^^ Suc k) (boot (FOUR_MHZ_CLOCK True d) e t)) =
     (if Suc k mod 64 < 53 then 48 else 47) \<and>
   10000000 \<le> unat (trim_pos ((ISR (FOUR_MHZ_CLOCK True d) ^^ Suc k) (boot (FOUR_MHZ_CLOCK True d) e t)))
                 + 48 * Suc k"
proof (induction k)
  case 0
  show ?case by (simp add: ISR_trim_first)
next
  case (Suc k)
  define s where "s = (ISR (FOUR_MHZ_CLOCK True d) ^^ Suc k) (boot (FOUR_MHZ_CLOCK True d) e t)"
  have c: "unat (cycle_pos s) = Suc k mod 64" and o: "OCR0A s = (if Suc k mod 64 < 53 then 48 else 47)"
    and t: "10000000 \<le> unat (trim_pos s) + 48 * Suc k"
    using Suc unfolding s_def by simp_all
  have lt: "unat (cycle_pos s) < 64" by (simp add: c)
  have o': "OCR0A s = 48 \<or> OCR0A s = 47" by (simp add: o)
  have t': "48 \<le> unat (trim_pos s)" using t Suc.prems by simp
  have u: "unat (cycle_pos s + 1) = Suc k mod 64 + 1"
    using lt by (simp add: unat_word_ariths c)
  have m: "Suc (Suc k) mod 64 = (if Suc k mod 64 = 63 then 0 else Suc k mod 64 + 1)"
    by (simp add: mod_Suc)
  have uo: "unat (OCR0A s) \<le> 48" by (simp add: o)
  have 1: "unat (cycle_pos (ISR (FOUR_MHZ_CLOCK True d) s)) = Suc (Suc k) mod 64"
    by (simp only: ISR_trim_quiet(1)[OF lt o' t'] c m) (use u in auto)
  have 2: "OCR0A (ISR (FOUR_MHZ_CLOCK True d) s) = (if Suc (Suc k) mod 64 < 53 then 48 else 47)"
    by (simp only: ISR_trim_quiet(2)[OF lt o' t'] c o m) auto
  have 3: "10000000 \<le> unat (trim_pos (ISR (FOUR_MHZ_CLOCK True d) s)) + 48 * Suc (Suc k)"
    using t t' uo by (simp only: ISR_trim_quiet(3)[OF lt o' t']) simp
  have "(ISR (FOUR_MHZ_CLOCK True d) ^^ Suc (Suc k)) (boot (FOUR_MHZ_CLOCK True d) e t)
        = ISR (FOUR_MHZ_CLOCK True d) s"
    by (simp add: s_def)
  then show ?case
    using 1 2 3 by (simp only:)
qed

text \<open>
  OCR0A is written only by the interrupt that brings \<open>cycle_pos\<close> to
  \<open>CLOCK_NUM_LONG_CYCLES\<close> or to \<open>CLOCK_CYCLES\<close>; every other interrupt leaves it as it
  is, whether or not it read a trim offset. When a rollover does fall on such an interrupt,
  the offset goes into OCR0A and stays there until the next write.
\<close>

lemma ISR_keeps_compare:
  assumes "unat (cycle_pos s + 1) \<noteq> CLOCK_NUM_LONG_CYCLES cfg"
    and "unat (cycle_pos s + 1) < CLOCK_CYCLES cfg"
  shows "OCR0A (ISR cfg s) = OCR0A s"
  using assms by (simp add: ISR_def Let_def)

lemma ISR_trim_lingers:
  assumes "cycle_pos s = 52" and "trim_pos s < ucast (OCR0A s)"
  shows "OCR0A (ISR (FOUR_MHZ_CLOCK True d) s) = word_of_int (47 + sint (eeprom_trim s))"
    and "cycle_pos (ISR (FOUR_MHZ_CLOCK True d) s) = 53"
  using assms by (simp_all add: ISR_def Let_def FOUR_MHZ_CLOCK_def)

text \<open>
  Claim C6 fails on the code. In the 4 MHz build with \<open>SW_TRIM\<close> the accumulator rolls
  over at the first interrupt after start-up (\<open>trim_pos\<close> is 0, below OCR0A), and the
  offset is read; but that interrupt writes no compare target, and \<open>offset\<close> is a local
  of the handler. For the next 200000 interrupts the compare target is the one of the
  build without trim, whatever the persisted trim \<open>t\<close>: the offset is added to no
  target at all.
\<close>

theorem trim_offset_never_applied:
  "1 \<le> k \<Longrightarrow> k \<le> 200000 \<Longrightarrow>
   trim_pos (boot (FOUR_MHZ_CLOCK True d) e t) < ucast (OCR0A (boot (FOUR_MHZ_CLOCK True d) e t)) \<and>
   trim_pos (ISR (FOUR_MHZ_CLOCK True d) (boot (FOUR_MHZ_CLOCK True d) e t)) = 10000000 - 48 \<and>
   OCR0A ((ISR (FOUR_MHZ_CLOCK True d) ^^ k) (boot (FOUR_MHZ_CLOCK True d) e t)) =
     (if k mod 64 < 53 then 48 else 47)"
proof -
  assume "1 \<le> k" "k \<le> 200000"
  then obtain j where j: "k = Suc j" "j < 200000"
    by (cases k) simp_all
  show ?thesis
    using ISR_trim_iter[OF j(2), of d e t]
    by (simp add: j(1) ISR_trim_first boot_timer) (simp add: FOUR_MHZ_CLOCK_def)
qed

theorem trim_offset_never_applied_witness:
  "(1::nat) \<le> 1 \<and> (1::nat) \<le> 200000 \<and> eeprom_trim (boot (FOUR_MHZ_CLOCK True False) 1 5) = 5 \<and>
   trim_pos (ISR (FOUR_MHZ_CLOCK True False) (boot (FOUR_MHZ_CLOCK True False) 1 5)) = 9999952 \<and>
   OCR0A ((ISR (FOUR_MHZ_CLOCK True False) ^^ 1) (boot (FOUR_MHZ_CLOCK True False) 1 5)) = 48"
  using trim_offset_never_applied[of 1 False 1 5] by (simp add: boot_timer)


section \<open>Runs of the main program\<close>

subsection \<open>\<open>doSleep\<close> and \<open>doTick\<close>, call by call\<close>

lemma and_then_Returns:
  "snd r = Returns s1 \<Longrightarrow> and_then r f = (fst r @ fst (f s1), snd (f s1))"
  by (cases r) (simp add: and_then_def split_def)

lemma and_then_Locks_up:
  "snd r = Locks_up s1 \<Longrightarrow> and_then r f = r"
  by (cases r) (simp add: and_then_def)

lemma ISR_main_fields:
  "sleep_miss_counter (ISR cfg s) = sleep_miss_counter s + 1"
  "lastTick (ISR cfg s) = lastTick s"
  "PORTB (ISR cfg s) = PORTB s"
  by (simp_all add: ISR_def Let_def)

lemma doSleep_cases:
  "\<exists>ev s2. (ev = [] \<or> ev = [Eeprom_write_dword (seed s)]) \<and>
     sleep_miss_counter s2 = sleep_miss_counter s \<and> lastTick s2 = lastTick s \<and>
     PORTB s2 = PORTB s \<and>
     doSleep cfg s =
       (if sleep_miss_counter s = 0
        then (ev @ [Eat_tick 0, Sleep_mode],
              Returns (ISR cfg (s2\<lparr>sleep_miss_counter := sleep_miss_counter s - 1\<rparr>)))
        else if DEBUG cfg
        then (ev @ [Eat_tick (sleep_miss_counter s), PORTB_out (PORTB s OR BV P_UNUSED)],
              Locks_up (s2\<lparr>sleep_miss_counter := sleep_miss_counter s - 1,
                           PORTB := PORTB s OR BV P_UNUSED\<rparr>))
        else (ev @ [Eat_tick (sleep_miss_counter s)],
              Returns (s2\<lparr>sleep_miss_counter := sleep_miss_counter s - 1\<rparr>)))"
proof (cases "seed_update_timer s - 1 = 0")
  case False
  then show ?thesis
    by (intro exI[of _ "[]"] exI[of _ "s\<lparr>seed_update_timer := seed_update_timer s - 1\<rparr>"])
       (simp add: doSleep_def Let_def)
next
  case True
  show ?thesis
  proof (cases "eeprom_seed s = seed s")
    case True
    with \<open>seed_update_timer s - 1 = 0\<close> show ?thesis
      by (intro exI[of _ "[]"] exI[of _ "s\<lparr>seed_update_timer := SEED_UPDATE_INTERVAL\<rparr>"])
         (simp add: doSleep_def Let_def updateSeed_def)
  next
    case False
    with \<open>seed_update_timer s - 1 = 0\<close> show ?thesis
      by (intro exI[of _ "[Eeprom_write_dword (seed s)]"]
            exI[of _ "s\<lparr>eeprom_seed := seed s, seed_update_timer := SEED_UPDATE_INTERVAL\<rparr>"])
         (simp add: doSleep_def Let_def updateSeed_def)
  qed
qed


lemma ticks_eaten_append [simp]: "ticks_eaten (es @ fs) = ticks_eaten es + ticks_eaten fs"
  by (simp add: ticks_eaten_def)

lemma pulses_append [simp]: "pulses (es @ fs) = pulses es + pulses fs"
  by (simp add: pulses_def)

lemma doSleep_counts:
  "ticks_eaten (fst (doSleep cfg s)) = 1 \<and> pulses (fst (doSleep cfg s)) = 0"
proof -
  obtain ev s2 where ev: "ev = [] \<or> ev = [Eeprom_write_dword (seed s)]"
    and d: "doSleep cfg s =
       (if sleep_miss_counter s = 0
        then (ev @ [Eat_tick 0, Sleep_mode],
              Returns (ISR cfg (s2\<lparr>sleep_miss_counter := sleep_miss_counter s - 1\<rparr>)))
        else if DEBUG cfg
        then (ev @ [Eat_tick (sleep_miss_counter s), PORTB_out (PORTB s OR BV P_UNUSED)],
              Locks_up (s2\<lparr>sleep_miss_counter := sleep_miss_counter s - 1,
                           PORTB := PORTB s OR BV P_UNUSED\<rparr>))
        else (ev @ [Eat_tick (sleep_miss_counter s)],
              Returns (s2\<lparr>sleep_miss_counter := sleep_miss_counter s - 1\<rparr>)))"
    using doSleep_cases[of s cfg] by blast
  from ev show ?thesis
    by (auto simp: d ticks_eaten_def pulses_def)
qed

lemma doSleep_returns:
  assumes "\<not> DEBUG cfg \<or> sleep_miss_counter s = 0"
  shows "\<exists>s'. snd (doSleep cfg s) = Returns s' \<and> (\<not> DEBUG cfg \<or> sleep_miss_counter s' = 0) \<and>
           lastTick s' = lastTick s \<and> PORTB s' = PORTB s"
proof -
  obtain ev s2 where s2: "sleep_miss_counter s2 = sleep_miss_counter s" "lastTick s2 = lastTick s"
      "PORTB s2 = PORTB s"
    and d: "doSleep cfg s =
       (if sleep_miss_counter s = 0
        then (ev @ [Eat_tick 0, Sleep_mode],
              Returns (ISR cfg (s2\<lparr>sleep_miss_counter := sleep_miss_counter s - 1\<rparr>)))
        else if DEBUG cfg
        then (ev @ [Eat_tick (sleep_miss_counter s), PORTB_out (PORTB s OR BV P_UNUSED)],
              Locks_up (s2\<lparr>sleep_miss_counter := sleep_miss_counter s - 1,
                           PORTB := PORTB s OR BV P_UNUSED\<rparr>))
        else (ev @ [Eat_tick (sleep_miss_counter s)],
              Returns (s2\<lparr>sleep_miss_counter := sleep_miss_counter s - 1\<rparr>)))"
    using doSleep_cases[of s cfg] by blast
  from assms s2 show ?thesis
    by (auto simp: d ISR_main_fields)
qed

lemma doTick_unfold:
  "doTick cfg s =
     ([PORTB_out (PORTB s OR BV (TICK_PIN (lastTick s))), Delay_ms TICK_LENGTH,
       PORTB_out ((PORTB s OR BV (TICK_PIN (lastTick s))) AND NOT (BV (TICK_PIN (lastTick s))))]
      @ fst (doSleep cfg (s\<lparr>PORTB := (PORTB s OR BV (TICK_PIN (lastTick s)))
                                          AND NOT (BV (TICK_PIN (lastTick s))),
                              lastTick := TICK_PIN (lastTick s)\<rparr>)),
      snd (doSleep cfg (s\<lparr>PORTB := (PORTB s OR BV (TICK_PIN (lastTick s)))
                                          AND NOT (BV (TICK_PIN (lastTick s))),
                              lastTick := TICK_PIN (lastTick s)\<rparr>)))"
  by (simp add: doTick_def Let_def and_then_def split_def)

lemma doTick_counts:
  "ticks_eaten (fst (doTick cfg s)) = 1 \<and> pulses (fst (doTick cfg s)) = 1"
proof -
  have a: "ticks_eaten [PORTB_out x, Delay_ms TICK_LENGTH, PORTB_out y] = 0"
          "pulses [PORTB_out x, Delay_ms TICK_LENGTH, PORTB_out y] = 1" for x y
    by (simp_all add: ticks_eaten_def pulses_def)
  show ?thesis
    by (simp only: doTick_unfold fst_conv ticks_eaten_append pulses_append a doSleep_counts) simp
qed

lemma doTick_returns:
  assumes "\<not> DEBUG cfg \<or> sleep_miss_counter s = 0"
  shows "\<exists>s'. snd (doTick cfg s) = Returns s' \<and> (\<not> DEBUG cfg \<or> sleep_miss_counter s' = 0)"
proof -
  let ?s3 = "s\<lparr>PORTB := (PORTB s OR BV (TICK_PIN (lastTick s))) AND NOT (BV (TICK_PIN (lastTick s))),
               lastTick := TICK_PIN (lastTick s)\<rparr>"
  have "\<not> DEBUG cfg \<or> sleep_miss_counter ?s3 = 0" using assms by simp
  from doSleep_returns[OF this] show ?thesis
    by (auto simp: doTick_unfold)
qed


lemma repeat_counts:
  assumes body: "\<And>s. I s \<Longrightarrow> \<exists>s'. snd (body s) = Returns s' \<and> I s' \<and>
                    ticks_eaten (fst (body s)) = a \<and> pulses (fst (body s)) = b"
  shows "I s \<Longrightarrow> \<exists>s'. snd (repeat n body s) = Returns s' \<and> I s' \<and>
           ticks_eaten (fst (repeat n body s)) = n * a \<and> pulses (fst (repeat n body s)) = n * b"
proof (induction n arbitrary: s)
  case 0
  then show ?case by (simp add: ticks_eaten_def pulses_def)
next
  case (Suc n)
  from body[OF Suc.prems] obtain s1 where s1: "snd (body s) = Returns s1" "I s1"
      "ticks_eaten (fst (body s)) = a" "pulses (fst (body s)) = b" by blast
  from Suc.IH[OF s1(2)] obtain s' where s': "snd (repeat n body s1) = Returns s'" "I s'"
      "ticks_eaten (fst (repeat n body s1)) = n * a" "pulses (fst (repeat n body s1)) = n * b"
    by blast
  have "repeat (Suc n) body s = (fst (body s) @ fst (repeat n body s1), snd (repeat n body s1))"
    by (simp add: and_then_Returns[OF s1(1)])
  then show ?case
    using s' s1 by simp
qed

lemma tick_and_sleep:
  assumes "\<not> DEBUG cfg \<or> sleep_miss_counter s = 0"
  shows "\<exists>s'. snd (and_then (doTick cfg s) (doSleep cfg)) = Returns s' \<and>
           (\<not> DEBUG cfg \<or> sleep_miss_counter s' = 0) \<and>
           ticks_eaten (fst (and_then (doTick cfg s) (doSleep cfg))) = 2 \<and>
           pulses (fst (and_then (doTick cfg s) (doSleep cfg))) = 1"
proof -
  from doTick_returns[OF assms] obtain s1 where s1: "snd (doTick cfg s) = Returns s1"
      "\<not> DEBUG cfg \<or> sleep_miss_counter s1 = 0" by blast
  from doSleep_returns[OF s1(2)] obtain s2 where s2: "snd (doSleep cfg s1) = Returns s2"
      "\<not> DEBUG cfg \<or> sleep_miss_counter s2 = 0" by blast
  show ?thesis
    using s2 doTick_counts[of cfg s] doSleep_counts[of cfg s1]
    by (simp add: and_then_Returns[OF s1(1)])
qed

lemma sleep_only:
  assumes "\<not> DEBUG cfg \<or> sleep_miss_counter s = 0"
  shows "\<exists>s'. snd (doSleep cfg s) = Returns s' \<and>
           (\<not> DEBUG cfg \<or> sleep_miss_counter s' = 0) \<and>
           ticks_eaten (fst (doSleep cfg s)) = 1 \<and> pulses (fst (doSleep cfg s)) = 0"
  using doSleep_returns[OF assms] doSleep_counts[of cfg s] by blast

lemma tick_count_range:
  assumes "0 \<le> sint (r :: 32 word)"
  shows "unat (tick_count_of r) = nat (sint r mod 30) + 1"
proof -
  define k where "k = sint r mod 30 + 1"
  have k: "0 \<le> k" "k < 2 ^ 8" by (simp_all add: k_def)
  have "sint r smod 30 = sint r mod 30"
    using assms by (simp add: smod_int_alt_def sgn_if)
  then have "tick_count_of r = word_of_int k"
    by (simp only: tick_count_of_def k_def)
  then have "uint (tick_count_of r) = take_bit 8 k"
    by (simp add: uint_word_of_int_eq)
  also have "\<dots> = k"
    using k by (rule take_bit_int_eq_self)
  finally have "unat (tick_count_of r) = nat k"
    by (simp only: unat_eq_nat_uint)
  then show ?thesis
    by (simp add: k_def nat_add_distrib)
qed

lemma loop_body_counts:
  assumes r: "0 \<le> sint r" and i: "\<not> DEBUG cfg \<or> sleep_miss_counter s = 0"
  shows "\<exists>s'. snd (loop_body cfg r s) = Returns s' \<and>
           (\<not> DEBUG cfg \<or> sleep_miss_counter s' = 0) \<and>
           pulses (fst (loop_body cfg r s)) = nat (sint r mod 30) + 1 \<and>
           ticks_eaten (fst (loop_body cfg r s)) = 10 * (nat (sint r mod 30) + 1)"
proof -
  define n where "n = nat (sint r mod 30) + 1"
  let ?I = "\<lambda>s. \<not> DEBUG cfg \<or> sleep_miss_counter s = 0"
  obtain ev s2 where p: "(ev = [] \<or> ev = [Eeprom_write_dword (seed s)])" "?I s2"
    and l: "loop_body cfg r s =
              and_then (and_then (ev, Returns s2)
                          (repeat n (\<lambda>s. and_then (doTick cfg s) (doSleep cfg))))
                       (repeat (n * 8) (doSleep cfg))"
  proof (cases "seedUpdateAfter s - 1 = 0")
    case False
    show ?thesis
      by (rule that[of "[]" "s\<lparr>seedUpdateAfter := seedUpdateAfter s - 1\<rparr>"])
         (use False i in \<open>simp_all add: loop_body_def Let_def tick_count_range[OF r] n_def\<close>)
  next
    case True
    show ?thesis
    proof (cases "eeprom_seed s = seed s")
      case e: True
      show ?thesis
        by (rule that[of "[]" "s\<lparr>seedUpdateAfter := SEED_UPDATE_INTERVAL\<rparr>"])
           (use True e i in \<open>simp_all add: loop_body_def Let_def updateSeed_def 
              tick_count_range[OF r] n_def\<close>)
    next
      case e: False
      show ?thesis
        by (rule that[of "[Eeprom_write_dword (seed s)]"
              "s\<lparr>eeprom_seed := seed s, seedUpdateAfter := SEED_UPDATE_INTERVAL\<rparr>"])
           (use True e i in \<open>simp_all add: loop_body_def Let_def updateSeed_def 
              tick_count_range[OF r] n_def\<close>)
    qed
  qed
  have ev0: "ticks_eaten ev = 0" "pulses ev = 0"
    using p(1) by (auto simp: ticks_eaten_def pulses_def)
  from repeat_counts[of ?I "\<lambda>s. and_then (doTick cfg s) (doSleep cfg)" 2 1 s2 n, OF tick_and_sleep p(2)]
  obtain s3 where s3: "snd (repeat n (\<lambda>s. and_then (doTick cfg s) (doSleep cfg)) s2) = Returns s3"
      "?I s3"
      "ticks_eaten (fst (repeat n (\<lambda>s. and_then (doTick cfg s) (doSleep cfg)) s2)) = n * 2"
      "pulses (fst (repeat n (\<lambda>s. and_then (doTick cfg s) (doSleep cfg)) s2)) = n * 1"
    by blast
  from repeat_counts[of ?I "doSleep cfg" 1 0 s3 "n * 8", OF sleep_only s3(2)]
  obtain s4 where s4: "snd (repeat (n * 8) (doSleep cfg) s3) = Returns s4"
      "?I s4"
      "ticks_eaten (fst (repeat (n * 8) (doSleep cfg) s3)) = n * 8 * 1"
      "pulses (fst (repeat (n * 8) (doSleep cfg) s3)) = n * 8 * 0"
    by blast
  have a: "and_then (ev, Returns s2) (repeat n (\<lambda>s. and_then (doTick cfg s) (doSleep cfg)))
           = (ev @ fst (repeat n (\<lambda>s. and_then (doTick cfg s) (doSleep cfg)) s2), Returns s3)"
    using and_then_Returns[of "(ev, Returns s2)" s2] by (simp add: s3(1))
  have "loop_body cfg r s =
          ((ev @ fst (repeat n (\<lambda>s. and_then (doTick cfg s) (doSleep cfg)) s2))
             @ fst (repeat (n * 8) (doSleep cfg) s3), Returns s4)"
    unfolding l a
    using and_then_Returns[of "(ev @ fst (repeat n (\<lambda>s. and_then (doTick cfg s) (doSleep cfg)) s2), Returns s3)" s3]
    by (simp add: s4(1))
  then show ?thesis
    using ev0 s3 s4 by (simp add: n_def)
qed

lemma loop_iterations_counts:
  assumes "list_all (\<lambda>r. 0 \<le> sint r) rs" "\<not> DEBUG cfg \<or> sleep_miss_counter s = 0"
  shows "returns (snd (loop_iterations cfg rs s)) \<and>
         pulses (fst (loop_iterations cfg rs s)) = sum_list (map (\<lambda>r. unat (tick_count_of r)) rs) \<and>
         ticks_eaten (fst (loop_iterations cfg rs s)) = 10 * pulses (fst (loop_iterations cfg rs s))"
  using assms
proof (induction rs arbitrary: s)
  case Nil
  show ?case by (simp add: pulses_def ticks_eaten_def)
next
  case (Cons r rs)
  have r: "0 \<le> sint r" and rs: "list_all (\<lambda>r. 0 \<le> sint r) rs"
    using Cons.prems(1) by simp_all
  from loop_body_counts[OF r Cons.prems(2)] obtain s1 where
    s1: "snd (loop_body cfg r s) = Returns s1" "\<not> DEBUG cfg \<or> sleep_miss_counter s1 = 0"
        "pulses (fst (loop_body cfg r s)) = nat (sint r mod 30) + 1"
        "ticks_eaten (fst (loop_body cfg r s)) = 10 * (nat (sint r mod 30) + 1)"
    by blast
  have e: "loop_iterations cfg (r # rs) s
           = (fst (loop_body cfg r s) @ fst (loop_iterations cfg rs s1),
              snd (loop_iterations cfg rs s1))"
    by (simp add: and_then_Returns[OF s1(1)])
  show ?case
    using Cons.IH[OF rs s1(2)] s1(3,4) tick_count_range[OF r]
    by (simp only: e fst_conv snd_conv pulses_append ticks_eaten_append) simp
qed

subsection \<open>The coil pins\<close>

lemma driven_append:
  "driven p (es @ fs) = driven p es @ driven (port_after p es) fs"
  by (induction p es rule: driven.induct) simp_all

lemma port_after_append:
  "port_after p (es @ fs) = port_after (port_after p es) fs"
  by (induction p es rule: port_after.induct) simp_all

lemma driven_low:
  "coils_low p \<Longrightarrow> driven p es = driven 0 es"
proof (induction es)
  case Nil
  show ?case by simp
next
  case (Cons e es)
  then show ?case
    by (cases e) (simp_all add: coils_low_def P0_def P1_def)
qed

lemma driven_coils_cong:
  "coils_low p \<Longrightarrow> coils_low p' \<Longrightarrow> driven p es = driven p' es"
  using driven_low[of p es] driven_low[of p' es] by simp

lemma TICK_PIN_cases: "TICK_PIN l = P0 \<or> TICK_PIN l = P1"
  by (simp add: TICK_PIN_def)

lemma TICK_PIN_flips: "TICK_PIN l \<noteq> l"
  by (simp add: TICK_PIN_def P0_def P1_def)

lemma BV_pins: "BV P0 = 1" "BV P1 = 2" "BV P_UNUSED = 4"
  by (simp_all add: BV_def P0_def P1_def P_UNUSED_def)

lemma bit_8_word_1: "bit (1 :: 8 word) n \<longleftrightarrow> n = 0"
  by (simp add: bit_1_iff)

lemma bit_8_word_2: "bit (2 :: 8 word) n \<longleftrightarrow> n = 1"
  using bit_push_bit_iff[of 1 "1 :: 8 word" n] by (auto simp: bit_1_iff)

lemma bit_8_word_4: "bit (4 :: 8 word) n \<longleftrightarrow> n = 2"
  using bit_push_bit_iff[of 2 "1 :: 8 word" n] by (auto simp: bit_1_iff)

lemma set_clear_pin:
  assumes "\<not> bit p k" "\<And>n. bit b n \<longleftrightarrow> n = k"
  shows "(p OR b) AND NOT b = (p :: 8 word)"
  by (rule bit_eqI) (use assms in \<open>auto simp: bit_and_iff bit_or_iff bit_not_iff\<close>)

lemma bit_BV:
  "bit (BV P0) n \<longleftrightarrow> n = 0" "bit (BV P1) n \<longleftrightarrow> n = 1" "bit (BV P_UNUSED) n \<longleftrightarrow> n = 2"
  by (simp_all only: BV_pins bit_8_word_1 bit_8_word_2 bit_8_word_4)

lemma unat_pins: "unat P0 = 0" "unat P1 = 1"
  by (simp_all add: P0_def P1_def)

lemma coils_low_iff: "coils_low p \<longleftrightarrow> \<not> bit p 0 \<and> \<not> bit p 1"
  by (simp add: coils_low_def unat_pins)

lemma pulse_port:
  assumes "coils_low p" "pin = P0 \<or> pin = P1"
  shows "driven p [PORTB_out (p OR BV pin), Delay_ms TICK_LENGTH, PORTB_out ((p OR BV pin) AND NOT (BV pin))]
           = [pin]"
    and "(p OR BV pin) AND NOT (BV pin) = p"
    and "\<not> both_coils_high (PORTB_out (p OR BV pin))"
proof -
  have l: "\<not> bit p 0" "\<not> bit p 1"
    using assms(1) by (simp_all add: coils_low_iff)
  have c0: "(p OR BV P0) AND NOT (BV P0) = p"
    by (rule set_clear_pin[where k = 0]) (simp_all only: l bit_BV not_False_eq_True)
  have c1: "(p OR BV P1) AND NOT (BV P1) = p"
    by (rule set_clear_pin[where k = 1]) (simp_all only: l bit_BV not_False_eq_True)
  show c: "(p OR BV pin) AND NOT (BV pin) = p"
    using assms(2) c0 c1 by blast
  have d0: "driven p [PORTB_out (p OR BV P0), Delay_ms TICK_LENGTH, PORTB_out p] = [P0]"
    using l by (simp add: unat_pins bit_or_iff bit_BV)
  have d1: "driven p [PORTB_out (p OR BV P1), Delay_ms TICK_LENGTH, PORTB_out p] = [P1]"
    using l by (simp add: unat_pins bit_or_iff bit_BV)
  show "driven p [PORTB_out (p OR BV pin), Delay_ms TICK_LENGTH,
                  PORTB_out ((p OR BV pin) AND NOT (BV pin))] = [pin]"
    unfolding c using assms(2) d0 d1 by blast
  have "\<not> both_coils_high (PORTB_out (p OR BV P0))" "\<not> both_coils_high (PORTB_out (p OR BV P1))"
    using l by (simp_all add: unat_pins bit_or_iff bit_BV)
  then show "\<not> both_coils_high (PORTB_out (p OR BV pin))"
    using assms(2) by blast
qed

lemma lockup_port:
  assumes "coils_low p"
  shows "driven p [PORTB_out (p OR BV P_UNUSED)] = []"
    and "coils_low (p OR BV P_UNUSED)"
    and "\<not> both_coils_high (PORTB_out (p OR BV P_UNUSED))"
  using assms
  by (simp_all add: coils_low_iff unat_pins bit_or_iff bit_BV)


lemma doSleep_tidy:
  assumes "coils_low (PORTB s)"
  shows "tidy cfg (PORTB s) (lastTick s) [] (doSleep cfg s)"
proof -
  obtain ev s2 where ev: "ev = [] \<or> ev = [Eeprom_write_dword (seed s)]"
    and s2: "lastTick s2 = lastTick s" "PORTB s2 = PORTB s"
    and d: "doSleep cfg s =
       (if sleep_miss_counter s = 0
        then (ev @ [Eat_tick 0, Sleep_mode],
              Returns (ISR cfg (s2\<lparr>sleep_miss_counter := sleep_miss_counter s - 1\<rparr>)))
        else if DEBUG cfg
        then (ev @ [Eat_tick (sleep_miss_counter s), PORTB_out (PORTB s OR BV P_UNUSED)],
              Locks_up (s2\<lparr>sleep_miss_counter := sleep_miss_counter s - 1,
                           PORTB := PORTB s OR BV P_UNUSED\<rparr>))
        else (ev @ [Eat_tick (sleep_miss_counter s)],
              Returns (s2\<lparr>sleep_miss_counter := sleep_miss_counter s - 1\<rparr>)))"
    using doSleep_cases[of s cfg] by blast
  from ev show ?thesis
  proof
    assume "ev = []"
    then show ?thesis
      using assms s2 lockup_port[OF assms]
      by (simp add: tidy_def d ISR_main_fields)
  next
    assume "ev = [Eeprom_write_dword (seed s)]"
    then show ?thesis
      using assms s2 lockup_port[OF assms]
      by (simp add: tidy_def d ISR_main_fields)
  qed
qed

lemma doTick_tidy:
  assumes "coils_low (PORTB s)"
  shows "tidy cfg (PORTB s) (TICK_PIN (lastTick s)) [TICK_PIN (lastTick s)] (doTick cfg s)"
    and "take 3 (fst (doTick cfg s)) =
           [PORTB_out (PORTB s OR BV (TICK_PIN (lastTick s))), Delay_ms TICK_LENGTH,
            PORTB_out (PORTB s)]"
proof -
  let ?pin = "TICK_PIN (lastTick s)"
  let ?pre = "[PORTB_out (PORTB s OR BV ?pin), Delay_ms TICK_LENGTH, PORTB_out (PORTB s)]"
  let ?s3 = "s\<lparr>PORTB := PORTB s, lastTick := ?pin\<rparr>"
  note pp = pulse_port[OF assms TICK_PIN_cases[of "lastTick s"]]
  have u: "doTick cfg s = (?pre @ fst (doSleep cfg ?s3), snd (doSleep cfg ?s3))"
    by (simp only: doTick_unfold pp(2))
  have t: "tidy cfg (PORTB s) ?pin [] (doSleep cfg ?s3)"
    using doSleep_tidy[of ?s3 cfg] assms by simp
  have pa: "port_after (PORTB s) ?pre = PORTB s" by simp
  have dr: "driven (PORTB s) ?pre = [?pin]"
    using pp(1) by (simp only: pp(2))
  have al: "list_all (\<lambda>e. \<not> both_coils_high e) ?pre"
    using pp(3) assms by (simp add: coils_low_iff unat_pins)
  show "tidy cfg (PORTB s) ?pin [?pin] (doTick cfg s)"
    using t dr al
    by (simp only: tidy_def u fst_conv snd_conv driven_append port_after_append pa list_all_append)
       simp
  show "take 3 (fst (doTick cfg s)) = ?pre"
    by (simp add: u)
qed


lemma alternating_length [simp]: "length (alternating p n) = n"
  by (induction n arbitrary: p) simp_all

lemma distinct_adj_alternating: "distinct_adj (alternating p n)"
proof (induction n arbitrary: p)
  case 0
  show ?case by simp
next
  case (Suc n)
  show ?case
  proof (cases n)
    case 0
    then show ?thesis by simp
  next
    case (Suc m)
    then show ?thesis
      using Suc.IH[of "TICK_PIN p"] TICK_PIN_flips[of p] by (auto simp: distinct_adj_Cons)
  qed
qed

lemma call_tidy:
  assumes "coils_low (PORTB s)"
  shows "tidy cfg (PORTB s) (if c = Call_doTick then TICK_PIN (lastTick s) else lastTick s)
           (if c = Call_doTick then [TICK_PIN (lastTick s)] else []) (call_run cfg c s)"
proof (cases c)
  case Call_doTick
  then show ?thesis using doTick_tidy(1)[OF assms] by simp
next
  case Call_doSleep
  then show ?thesis using doSleep_tidy[OF assms] by simp
next
  case Timer_interrupt
  then show ?thesis using assms by (simp add: tidy_def ISR_main_fields)
qed

lemma exec_tidy:
  assumes "coils_low (PORTB s)"
  shows "\<exists>k. driven (PORTB s) (fst (exec cfg cs s)) = alternating (TICK_PIN (lastTick s)) k \<and>
             list_all (\<lambda>e. \<not> both_coils_high e) (fst (exec cfg cs s)) \<and>
             (DEBUG cfg \<or> k = count_list cs Call_doTick)"
  using assms
proof (induction cs arbitrary: s)
  case Nil
  show ?case by (intro exI[of _ 0]) simp
next
  case (Cons c cs)
  let ?l = "if c = Call_doTick then TICK_PIN (lastTick s) else lastTick s"
  let ?d = "if c = Call_doTick then [TICK_PIN (lastTick s)] else []"
  let ?r = "call_run cfg c s"
  have t: "tidy cfg (PORTB s) ?l ?d ?r" by (rule call_tidy[OF Cons.prems])
  show ?case
  proof (cases "snd ?r")
    case (Locks_up s1)
    then have e: "exec cfg (c # cs) s = ?r"
      by (simp add: and_then_Locks_up)
    have "DEBUG cfg" using t Locks_up by (simp add: tidy_def)
    then show ?thesis
      using t unfolding e tidy_def
      by (intro exI[of _ "length ?d"]) auto
  next
    case (Returns s1)
    then have e: "exec cfg (c # cs) s = (fst ?r @ fst (exec cfg cs s1), snd (exec cfg cs s1))"
      by (simp add: and_then_Returns)
    have s1: "coils_low (PORTB s1)" "lastTick s1 = ?l"
      using t Returns by (simp_all add: tidy_def)
    from Cons.IH[OF s1(1)] obtain k where
      k: "driven (PORTB s1) (fst (exec cfg cs s1)) = alternating (TICK_PIN (lastTick s1)) k"
         "list_all (\<lambda>e. \<not> both_coils_high e) (fst (exec cfg cs s1))"
         "DEBUG cfg \<or> k = count_list cs Call_doTick"
      by blast
    have t1: "driven (PORTB s) (fst ?r) = ?d" and t2: "coils_low (port_after (PORTB s) (fst ?r))"
      and t3: "list_all (\<lambda>e. \<not> both_coils_high e) (fst ?r)"
      using t unfolding tidy_def by blast+
    have "driven (port_after (PORTB s) (fst ?r)) (fst (exec cfg cs s1))
          = driven (PORTB s1) (fst (exec cfg cs s1))"
      using t2 s1(1) by (rule driven_coils_cong)
    also have "\<dots> = alternating (TICK_PIN ?l) k"
      by (simp only: k(1) s1(2))
    finally have "driven (PORTB s) (fst ?r) @ driven (port_after (PORTB s) (fst ?r)) (fst (exec cfg cs s1))
                  = ?d @ alternating (TICK_PIN ?l) k"
      by (simp only: t1)
    then have dr: "driven (PORTB s) (fst (exec cfg (c # cs) s))
                   = ?d @ alternating (TICK_PIN ?l) k"
      by (simp only: e fst_conv driven_append)
    have al: "list_all (\<lambda>e. \<not> both_coils_high e) (fst (exec cfg (c # cs) s))"
      using t3 k(2) by (simp only: e fst_conv list_all_append)
    show ?thesis
    proof (cases "c = Call_doTick")
      case True
      then show ?thesis
        using dr al k(3) by (intro exI[of _ "Suc k"]) auto
    next
      case False
      then show ?thesis
        using dr al k(3) by (intro exI[of _ k]) auto
    qed
  qed
qed

subsection \<open>The backlog\<close>

lemma awake_append [simp]: "awake (es @ fs) = (awake es \<and> awake fs)"
  by (simp add: awake_def)

lemma doSleep_sleeps_iff:
  "(Sleep_mode \<in> set (fst (doSleep cfg s))) = (sleep_miss_counter s = 0) \<and>
   Eat_tick (sleep_miss_counter s) \<in> set (fst (doSleep cfg s))"
proof -
  obtain ev s2 where ev: "ev = [] \<or> ev = [Eeprom_write_dword (seed s)]"
    and d: "doSleep cfg s =
       (if sleep_miss_counter s = 0
        then (ev @ [Eat_tick 0, Sleep_mode],
              Returns (ISR cfg (s2\<lparr>sleep_miss_counter := sleep_miss_counter s - 1\<rparr>)))
        else if DEBUG cfg
        then (ev @ [Eat_tick (sleep_miss_counter s), PORTB_out (PORTB s OR BV P_UNUSED)],
              Locks_up (s2\<lparr>sleep_miss_counter := sleep_miss_counter s - 1,
                           PORTB := PORTB s OR BV P_UNUSED\<rparr>))
        else (ev @ [Eat_tick (sleep_miss_counter s)],
              Returns (s2\<lparr>sleep_miss_counter := sleep_miss_counter s - 1\<rparr>)))"
    using doSleep_cases[of s cfg] by blast
  from ev show ?thesis by (auto simp: d)
qed

lemma doSleep_awake:
  assumes "sleep_miss_counter s \<noteq> 0"
  shows "awake (fst (doSleep cfg s)) \<and>
         (case snd (doSleep cfg s) of
            Returns s1 \<Rightarrow> \<not> DEBUG cfg \<and> sleep_miss_counter s1 = sleep_miss_counter s - 1
          | Locks_up s1 \<Rightarrow> DEBUG cfg)"
proof -
  obtain ev s2 where ev: "ev = [] \<or> ev = [Eeprom_write_dword (seed s)]"
    and s2: "sleep_miss_counter s2 = sleep_miss_counter s"
    and d: "doSleep cfg s =
       (if sleep_miss_counter s = 0
        then (ev @ [Eat_tick 0, Sleep_mode],
              Returns (ISR cfg (s2\<lparr>sleep_miss_counter := sleep_miss_counter s - 1\<rparr>)))
        else if DEBUG cfg
        then (ev @ [Eat_tick (sleep_miss_counter s), PORTB_out (PORTB s OR BV P_UNUSED)],
              Locks_up (s2\<lparr>sleep_miss_counter := sleep_miss_counter s - 1,
                           PORTB := PORTB s OR BV P_UNUSED\<rparr>))
        else (ev @ [Eat_tick (sleep_miss_counter s)],
              Returns (s2\<lparr>sleep_miss_counter := sleep_miss_counter s - 1\<rparr>)))"
    using doSleep_cases[of s cfg] by blast
  from ev assms show ?thesis by (auto simp: d awake_def)
qed

lemma doTick_awake:
  assumes "sleep_miss_counter s \<noteq> 0"
  shows "awake (fst (doTick cfg s)) \<and>
         (case snd (doTick cfg s) of
            Returns s1 \<Rightarrow> \<not> DEBUG cfg \<and> sleep_miss_counter s1 = sleep_miss_counter s - 1
          | Locks_up s1 \<Rightarrow> DEBUG cfg)"
proof -
  let ?s3 = "s\<lparr>PORTB := (PORTB s OR BV (TICK_PIN (lastTick s))) AND NOT (BV (TICK_PIN (lastTick s))),
               lastTick := TICK_PIN (lastTick s)\<rparr>"
  have "sleep_miss_counter ?s3 \<noteq> 0" using assms by simp
  from doSleep_awake[OF this, of cfg] show ?thesis
    by (simp add: doTick_unfold awake_def split: outcome.splits)
qed

lemma consume_awake:
  assumes "sleep_miss_counter s \<noteq> 0" "c \<noteq> Timer_interrupt"
  shows "awake (fst (call_run cfg c s)) \<and>
         (case snd (call_run cfg c s) of
            Returns s1 \<Rightarrow> \<not> DEBUG cfg \<and> sleep_miss_counter s1 = sleep_miss_counter s - 1
          | Locks_up s1 \<Rightarrow> DEBUG cfg)"
  using assms doSleep_awake[of s cfg] doTick_awake[of s cfg] by (cases c) simp_all

lemma count_le_length: "count_list cs x \<le> length cs"
  by (induction cs) simp_all

lemma backlog_exec:
  "within_capacity (unat (sleep_miss_counter s)) cs \<Longrightarrow>
     awake (fst (exec cfg cs s)) \<and>
     (DEBUG cfg \<or>
      returns (snd (exec cfg cs s)) \<and>
      unat (sleep_miss_counter (final (snd (exec cfg cs s)))) + consumed cs
        = unat (sleep_miss_counter s) + produced cs)"
proof (induction cs arbitrary: s)
  case Nil
  show ?case by (simp add: awake_def consumed_def produced_def)
next
  case (Cons c cs)
  show ?case
  proof (cases "c = Timer_interrupt")
    case True
    with Cons.prems have b: "unat (sleep_miss_counter s) < 255"
      and w: "within_capacity (Suc (unat (sleep_miss_counter s))) cs" by simp_all
    have u: "unat (sleep_miss_counter (ISR cfg s)) = Suc (unat (sleep_miss_counter s))"
      using b by (simp add: ISR_main_fields unat_word_ariths)
    have e: "exec cfg (c # cs) s = exec cfg cs (ISR cfg s)"
      using True by (simp add: and_then_def split_def)
    from Cons.IH[of "ISR cfg s"] w u show ?thesis
      unfolding e using True count_le_length[of cs Timer_interrupt]
      by (auto simp: consumed_def produced_def)
  next
    case False
    with Cons.prems have b: "0 < unat (sleep_miss_counter s)"
      and w: "within_capacity (unat (sleep_miss_counter s) - 1) cs"
      by (cases c; simp)+
    have nz: "sleep_miss_counter s \<noteq> 0" using b by auto
    note a = consume_awake[OF nz False, of cfg]
    show ?thesis
    proof (cases "snd (call_run cfg c s)")
      case (Locks_up s1)
      then have "exec cfg (c # cs) s = call_run cfg c s"
        by (simp add: and_then_Locks_up)
      with a Locks_up show ?thesis by simp
    next
      case (Returns s1)
      then have e: "exec cfg (c # cs) s
                    = (fst (call_run cfg c s) @ fst (exec cfg cs s1), snd (exec cfg cs s1))"
        by (simp add: and_then_Returns)
      have s1: "\<not> DEBUG cfg" "sleep_miss_counter s1 = sleep_miss_counter s - 1"
        using a Returns by simp_all
      have u: "unat (sleep_miss_counter s1) = unat (sleep_miss_counter s) - 1"
        using b by (simp add: s1(2) unat_minus_one nz)
      from Cons.IH[of s1] w u have
        i: "awake (fst (exec cfg cs s1))" "returns (snd (exec cfg cs s1))"
           "unat (sleep_miss_counter (final (snd (exec cfg cs s1)))) + consumed cs
            = unat (sleep_miss_counter s) - 1 + produced cs"
        using s1(1) by simp_all
      have "consumed (c # cs) = Suc (consumed cs)" "produced (c # cs) = produced cs"
        using False count_le_length[of cs Timer_interrupt]
        by (simp_all add: consumed_def produced_def)
      moreover have "awake (fst (exec cfg (c # cs) s))"
        using a i(1) by (simp only: e fst_conv awake_append)
      moreover have "returns (snd (exec cfg (c # cs) s))"
        using i(2) by (simp only: e snd_conv)
      moreover have "final (snd (exec cfg (c # cs) s)) = final (snd (exec cfg cs s1))"
        by (simp only: e snd_conv)
      ultimately show ?thesis
        using i(3) b by (simp only:) simp
    qed
  qed
qed

section \<open>The lazy clock\<close>

text \<open>
  Claim C1, as amended. With \<open>r\<close> the value \<open>random()\<close> returns (not negative), one
  iteration draws \<open>n = r mod 30 + 1\<close>, between 1 and 30, makes exactly \<open>n\<close> pulses and
  eats exactly \<open>10 * n\<close> ticks: \<open>2 * n\<close> in the burst (\<open>doTick\<close> and then \<open>doSleep\<close>) and
  \<open>8 * n\<close> in the idle loop. So over any number of iterations of \<open>loop()\<close> the ticks eaten
  are ten times the pulses. The iterations return when no interrupt was missed, and in
  any case outside DEBUG builds.
\<close>

theorem lazy_iteration_ten_ticks_per_pulse:
  assumes "0 \<le> sint r" and "\<not> DEBUG cfg \<or> sleep_miss_counter s = 0"
    and "list_all (\<lambda>r. 0 \<le> sint r) rs" and "\<not> DEBUG cfg \<or> sleep_miss_counter s0 = 0"
  shows "unat (tick_count_of r) = nat (sint r mod 30) + 1 \<and>
         1 \<le> unat (tick_count_of r) \<and> unat (tick_count_of r) \<le> 30 \<and>
         returns (snd (loop_body cfg r s)) \<and>
         pulses (fst (loop_body cfg r s)) = unat (tick_count_of r) \<and>
         ticks_eaten (fst (loop_body cfg r s)) = 10 * unat (tick_count_of r) \<and>
         returns (snd (loop cfg rs s0)) \<and>
         pulses (fst (loop cfg rs s0)) = sum_list (map (\<lambda>r. unat (tick_count_of r)) rs) \<and>
         ticks_eaten (fst (loop cfg rs s0)) = 10 * pulses (fst (loop cfg rs s0))"
proof -
  have "sint r mod 30 < 30" by simp
  then have n: "nat (sint r mod 30) + 1 \<le> 30" by linarith
  have "\<not> DEBUG cfg \<or> sleep_miss_counter (loop_entry s0) = 0"
    using assms(4) by (simp add: loop_entry_def)
  from loop_iterations_counts[OF assms(3) this]
  have l: "returns (snd (loop cfg rs s0)) \<and>
           pulses (fst (loop cfg rs s0)) = sum_list (map (\<lambda>r. unat (tick_count_of r)) rs) \<and>
           ticks_eaten (fst (loop cfg rs s0)) = 10 * pulses (fst (loop cfg rs s0))"
    by (simp only: loop_def)
  from loop_body_counts[OF assms(1,2)] obtain s' where
    "snd (loop_body cfg r s) = Returns s'"
    "pulses (fst (loop_body cfg r s)) = nat (sint r mod 30) + 1"
    "ticks_eaten (fst (loop_body cfg r s)) = 10 * (nat (sint r mod 30) + 1)"
    by blast
  with n l show ?thesis
    by (simp add: tick_count_range[OF assms(1)])
qed

theorem lazy_iteration_ten_ticks_per_pulse_witness:
  "0 \<le> sint (74565 :: 32 word) \<and> list_all (\<lambda>r. 0 \<le> sint r) [0, 74565 :: 32 word] \<and>
   sleep_miss_counter (boot (FOUR_MHZ_CLOCK False False) 1 0) = 0 \<and>
   sleep_miss_counter (loop_entry (boot (FOUR_MHZ_CLOCK False False) 1 0)) = 0 \<and>
   unat (tick_count_of 74565) = 16 \<and>
   returns (snd (loop_body (FOUR_MHZ_CLOCK False False) 74565
                   (loop_entry (boot (FOUR_MHZ_CLOCK False False) 1 0)))) \<and>
   pulses (fst (loop_body (FOUR_MHZ_CLOCK False False) 74565
                  (loop_entry (boot (FOUR_MHZ_CLOCK False False) 1 0)))) = 16 \<and>
   ticks_eaten (fst (loop_body (FOUR_MHZ_CLOCK False False) 74565
                       (loop_entry (boot (FOUR_MHZ_CLOCK False False) 1 0)))) = 160 \<and>
   returns (snd (loop (FOUR_MHZ_CLOCK False False) [0, 74565] (boot (FOUR_MHZ_CLOCK False False) 1 0))) \<and>
   pulses (fst (loop (FOUR_MHZ_CLOCK False False) [0, 74565] (boot (FOUR_MHZ_CLOCK False False) 1 0))) = 17 \<and>
   ticks_eaten (fst (loop (FOUR_MHZ_CLOCK False False) [0, 74565] (boot (FOUR_MHZ_CLOCK False False) 1 0))) = 170"
proof -
  define s0 where "s0 = boot (FOUR_MHZ_CLOCK False False) 1 0"
  define s where "s = loop_entry s0"
  have h: "0 \<le> sint (74565 :: 32 word)" "list_all (\<lambda>r. 0 \<le> sint r) [0, 74565 :: 32 word]"
    by simp_all
  have z0: "sleep_miss_counter s0 = 0"
    by (simp add: s0_def boot_timer)
  then have i0: "\<not> DEBUG (FOUR_MHZ_CLOCK False False) \<or> sleep_miss_counter s0 = 0" ..
  have z: "sleep_miss_counter s = 0"
    by (simp add: s_def loop_entry_def z0)
  then have i: "\<not> DEBUG (FOUR_MHZ_CLOCK False False) \<or> sleep_miss_counter s = 0" ..
  have n: "nat (sint (74565 :: 32 word) mod 30) + 1 = 16" "unat (tick_count_of 0) = 1"
    using tick_count_range[of 0] by simp_all
  show ?thesis
    using lazy_iteration_ten_ticks_per_pulse[OF h(1) i h(2) i0] h z z0 n
    unfolding s_def[symmetric] s0_def[symmetric] by simp
qed

text \<open>
  The iteration does not eat \<open>9 * n\<close> ticks: when \<open>random()\<close> returns 0, \<open>n\<close> is 1, there
  is one pulse, and ten ticks are eaten.
\<close>

theorem lazy_iteration_nine_ticks_counterexample:
  "unat (tick_count_of 0) = 1 \<and>
   pulses (fst (loop_body (FOUR_MHZ_CLOCK False False) 0
                  (loop_entry (boot (FOUR_MHZ_CLOCK False False) 1 0)))) = 1 \<and>
   ticks_eaten (fst (loop_body (FOUR_MHZ_CLOCK False False) 0
                       (loop_entry (boot (FOUR_MHZ_CLOCK False False) 1 0)))) = 10 \<and>
   ticks_eaten (fst (loop_body (FOUR_MHZ_CLOCK False False) 0
                       (loop_entry (boot (FOUR_MHZ_CLOCK False False) 1 0))))
     \<noteq> 9 * unat (tick_count_of 0)"
proof -
  have r: "0 \<le> sint (0 :: 32 word)" by simp
  have d: "\<not> DEBUG (FOUR_MHZ_CLOCK False False)
             \<or> sleep_miss_counter (loop_entry (boot (FOUR_MHZ_CLOCK False False) 1 0)) = 0"
    by (simp add: FOUR_MHZ_CLOCK_def)
  from loop_body_counts[OF r d] obtain s' where
    "pulses (fst (loop_body (FOUR_MHZ_CLOCK False False) 0
                    (loop_entry (boot (FOUR_MHZ_CLOCK False False) 1 0)))) = nat (sint (0 :: 32 word) mod 30) + 1"
    "ticks_eaten (fst (loop_body (FOUR_MHZ_CLOCK False False) 0
                    (loop_entry (boot (FOUR_MHZ_CLOCK False False) 1 0))))
       = 10 * (nat (sint (0 :: 32 word) mod 30) + 1)"
    by blast
  then show ?thesis
    using tick_count_range[OF r] by simp
qed

section \<open>The backlog of missed interrupts\<close>

lemma exec_interrupts:
  "exec cfg (replicate n Timer_interrupt @ cs) s = exec cfg cs ((ISR cfg ^^ n) s)"
proof (induction n arbitrary: s)
  case 0
  show ?case by simp
next
  case (Suc n)
  have "exec cfg (replicate (Suc n) Timer_interrupt @ cs) s
        = exec cfg (replicate n Timer_interrupt @ cs) (ISR cfg s)"
    by (simp add: and_then_def split_def)
  then show ?case
    by (simp only: Suc.IH funpow_Suc_right o_apply)
qed

lemma exec_single: "exec cfg [c] s = call_run cfg c s"
  by (cases "call_run cfg c s") (auto simp: and_then_def split: outcome.splits)

lemma counter_after_interrupts:
  "sleep_miss_counter ((ISR cfg ^^ n) s) = sleep_miss_counter s + of_nat n"
  by (induction n) (simp_all add: ISR_main_fields)

lemma never_outnumber_interrupts:
  "never_outnumber b (replicate n Timer_interrupt @ cs) = never_outnumber (b + n) cs"
  by (induction n arbitrary: b) simp_all

lemma within_capacity_never_outnumber:
  "within_capacity b cs \<Longrightarrow> never_outnumber b cs"
proof (induction cs arbitrary: b)
  case Nil
  show ?case by simp
next
  case (Cons c cs)
  then show ?case by (cases c) simp_all
qed

text \<open>
  Claim C4, as amended. In every schedule of timer interrupts (produces) and calls of
  \<open>doSleep\<close> or \<open>doTick\<close> (consumes) in which consumes never outnumber produces and the
  backlog never exceeds 255, no consume finds \<open>sleep_miss_counter\<close> at 0 (it is never
  decremented below zero) and none sleeps; outside DEBUG builds the run returns and the
  counter ends at its starting value plus the produces minus the consumes. And for every
  state, a call of \<open>doSleep\<close> enters \<open>sleep_mode()\<close> exactly when its snapshot of the
  counter is 0.
\<close>

theorem backlog_within_capacity:
  "within_capacity (unat (sleep_miss_counter s)) cs \<Longrightarrow>
     awake (fst (exec cfg cs s)) \<and>
     (DEBUG cfg \<or>
      returns (snd (exec cfg cs s)) \<and>
      unat (sleep_miss_counter (final (snd (exec cfg cs s)))) + consumed cs
        = unat (sleep_miss_counter s) + produced cs) \<and>
     (Sleep_mode \<in> set (fst (doSleep cfg s'))) = (sleep_miss_counter s' = 0) \<and>
     Eat_tick (sleep_miss_counter s') \<in> set (fst (doSleep cfg s'))"
  using backlog_exec[of s cs cfg] doSleep_sleeps_iff[of cfg s'] by simp

theorem backlog_within_capacity_witness:
  "within_capacity (unat (sleep_miss_counter (boot (FOUR_MHZ_CLOCK False False) 1 0)))
     [Timer_interrupt, Timer_interrupt, Call_doSleep, Call_doTick] \<and>
   \<not> DEBUG (FOUR_MHZ_CLOCK False False) \<and>
   awake (fst (exec (FOUR_MHZ_CLOCK False False)
            [Timer_interrupt, Timer_interrupt, Call_doSleep, Call_doTick]
            (boot (FOUR_MHZ_CLOCK False False) 1 0))) \<and>
   returns (snd (exec (FOUR_MHZ_CLOCK False False)
            [Timer_interrupt, Timer_interrupt, Call_doSleep, Call_doTick]
            (boot (FOUR_MHZ_CLOCK False False) 1 0))) \<and>
   unat (sleep_miss_counter (final (snd (exec (FOUR_MHZ_CLOCK False False)
            [Timer_interrupt, Timer_interrupt, Call_doSleep, Call_doTick]
            (boot (FOUR_MHZ_CLOCK False False) 1 0))))) = 0"
  using backlog_within_capacity[of "boot (FOUR_MHZ_CLOCK False False) 1 0"
          "[Timer_interrupt, Timer_interrupt, Call_doSleep, Call_doTick]"
          "FOUR_MHZ_CLOCK False False"]
  by (simp add: boot_timer consumed_def produced_def) (simp add: FOUR_MHZ_CLOCK_def)

text \<open>
  Without the bound the claim fails: after 256 interrupts and no consume the 8-bit counter
  has wrapped to 0, so the one consume that follows finds 0 and decrements below zero,
  although consumes never outnumbered produces.
\<close>

theorem backlog_wraps_counterexample:
  "never_outnumber (unat (sleep_miss_counter (boot (FOUR_MHZ_CLOCK False False) 1 0)))
     (replicate 256 Timer_interrupt @ [Call_doSleep]) \<and>
   \<not> awake (fst (exec (FOUR_MHZ_CLOCK False False)
                (replicate 256 Timer_interrupt @ [Call_doSleep])
                (boot (FOUR_MHZ_CLOCK False False) 1 0))) \<and>
   Eat_tick 0 \<in> set (fst (exec (FOUR_MHZ_CLOCK False False)
                (replicate 256 Timer_interrupt @ [Call_doSleep])
                (boot (FOUR_MHZ_CLOCK False False) 1 0)))"
proof -
  let ?cfg = "FOUR_MHZ_CLOCK False False"
  let ?s = "(ISR ?cfg ^^ 256) (boot ?cfg 1 0)"
  have z: "sleep_miss_counter ?s = 0"
    by (simp add: counter_after_interrupts boot_timer)
  have e: "exec ?cfg (replicate 256 Timer_interrupt @ [Call_doSleep]) (boot ?cfg 1 0)
           = doSleep ?cfg ?s"
    by (simp only: exec_interrupts exec_single call_run.simps)
  have "Eat_tick 0 \<in> set (fst (doSleep ?cfg ?s))"
    using doSleep_sleeps_iff[of ?cfg ?s] by (simp only: z)
  moreover from this have "\<not> awake (fst (doSleep ?cfg ?s))"
    by (auto simp: awake_def list_all_iff)
  moreover have "never_outnumber (unat (sleep_miss_counter (boot ?cfg 1 0)))
                   (replicate 256 Timer_interrupt @ [Call_doSleep])"
    by (simp only: never_outnumber_interrupts) (simp add: boot_timer)
  ultimately show ?thesis
    by (simp only: e) simp
qed

section \<open>Pulses on the coil pins\<close>

text \<open>
  Claim C9. From a state with both coil pins low, as \<open>main\<close> leaves them, and for every
  schedule of calls and interrupts: the pins driven high are, in order, the pin other than
  \<open>lastTick\<close> and then alternately each pin, so no two consecutive pulses drive the same
  pin; outside DEBUG builds there is one such pulse for each call of \<open>doTick\<close>; no write
  to PORTB has both coil pins high; and \<open>doTick\<close> begins by driving its pin high, waiting
  35 ms and driving it low.
\<close>

theorem pulses_alternate:
  "coils_low (PORTB s) \<Longrightarrow>
     driven (PORTB s) (fst (exec cfg cs s))
       = alternating (TICK_PIN (lastTick s)) (length (driven (PORTB s) (fst (exec cfg cs s)))) \<and>
     distinct_adj (driven (PORTB s) (fst (exec cfg cs s))) \<and>
     (DEBUG cfg \<or> length (driven (PORTB s) (fst (exec cfg cs s))) = count_list cs Call_doTick) \<and>
     list_all (\<lambda>e. \<not> both_coils_high e) (fst (exec cfg cs s)) \<and>
     take 3 (fst (doTick cfg s))
       = [PORTB_out (PORTB s OR BV (TICK_PIN (lastTick s))), Delay_ms 35, PORTB_out (PORTB s)]"
proof -
  assume c: "coils_low (PORTB s)"
  from exec_tidy[OF c, of cfg cs] obtain k where
    k: "driven (PORTB s) (fst (exec cfg cs s)) = alternating (TICK_PIN (lastTick s)) k"
       "list_all (\<lambda>e. \<not> both_coils_high e) (fst (exec cfg cs s))"
       "DEBUG cfg \<or> k = count_list cs Call_doTick"
    by blast
  have l: "length (driven (PORTB s) (fst (exec cfg cs s))) = k"
    by (simp add: k(1))
  have d: "distinct_adj (driven (PORTB s) (fst (exec cfg cs s)))"
    by (simp only: k(1) distinct_adj_alternating)
  show ?thesis
    using k d doTick_tidy(2)[OF c, of cfg] by (simp only: l) (simp add: TICK_LENGTH_def)
qed

theorem pulses_alternate_witness:
  "coils_low (PORTB (boot (FOUR_MHZ_CLOCK False False) 1 0)) \<and>
   driven (PORTB (boot (FOUR_MHZ_CLOCK False False) 1 0))
     (fst (exec (FOUR_MHZ_CLOCK False False) [Call_doTick, Call_doSleep, Call_doTick, Call_doTick]
             (boot (FOUR_MHZ_CLOCK False False) 1 0)))
     = [P1, P0, P1]"
proof -
  define s0 where "s0 = boot (FOUR_MHZ_CLOCK False False) 1 0"
  define cs where "cs = [Call_doTick, Call_doSleep, Call_doTick, Call_doTick]"
  define d where "d = driven (PORTB s0) (fst (exec (FOUR_MHZ_CLOCK False False) cs s0))"
  have c: "coils_low (PORTB s0)"
    by (simp add: s0_def boot_timer coils_low_def)
  have l: "lastTick s0 = P0"
    by (simp add: s0_def boot_timer)
  have n: "\<not> DEBUG (FOUR_MHZ_CLOCK False False)"
    by (simp add: FOUR_MHZ_CLOCK_def)
  have a: "alternating (TICK_PIN P0) 3 = [P1, P0, P1]"
    by (simp add: numeral_3_eq_3 TICK_PIN_def P0_def P1_def)
  have k: "count_list cs Call_doTick = 3"
    by (simp add: cs_def)
  from pulses_alternate[OF c, of "FOUR_MHZ_CLOCK False False" cs]
  have "d = alternating (TICK_PIN (lastTick s0)) (length d)" "length d = count_list cs Call_doTick"
    using n unfolding d_def by blast+
  then have "d = [P1, P0, P1]"
    by (simp only: k l a)
  with c show ?thesis
    by (simp only: d_def s0_def cs_def)
qed

end
